theory Spec2Isabelle
  imports Main
begin

section \<open>Answers and fields\<close>

text \<open>
  An answer held in \<open>formData\<close> is what the input widgets store: a string (text, email,
  radio, select, textarea and number inputs pass \<open>e.target.value\<close> or the option), a
  number (the age selector) or an array of strings (\<open>handleCheckboxToggle\<close>). A key
  that is absent reads as \<open>undefined\<close>, modelled as \<open>None\<close>. Numbers are the
  integers that JavaScript prints in plain decimal; \<open>NaN\<close> and fractions are not
  modelled.
\<close>

datatype answer = AStr string | ANum int | AArr "string list"

datatype field_type =
  Text | Email | Number | Select | Radio | Checkbox | Textarea | ProgressProcess | Content

text \<open>
  \<open>FormPage\<close>, with the members the navigation reads. An optional member that is
  absent is \<open>None\<close>; the optional flag \<open>required\<close> is only ever tested for
  truthiness, so absent is \<open>False\<close>.
\<close>

record FormPage =
  field_id :: string
  ftype :: field_type
  required :: bool
  conditionalNext :: "(string \<rightharpoonup> string) option"
  defaultNext :: "string option"

type_synonym form_data = "string \<rightharpoonup> answer"

subsection \<open>Stringification\<close>

fun digits_of :: "nat \<Rightarrow> string" where
  "digits_of n =
     (if n < 10 then [char_of (48 + n)]
      else digits_of (n div 10) @ [char_of (48 + n mod 10)])"

declare digits_of.simps [simp del]

definition number_toString :: "int \<Rightarrow> string" where
  "number_toString i = (if i < 0 then CHR ''-'' # digits_of (nat (- i)) else digits_of (nat i))"

fun join_strings :: "string \<Rightarrow> string list \<Rightarrow> string" where
  "join_strings sep [] = []"
| "join_strings sep [x] = x"
| "join_strings sep (x # y # ys) = x @ sep @ join_strings sep (y # ys)"

text \<open>\<open>fieldValue?.toString() || ""\<close>: \<open>undefined\<close> gives the empty string.\<close>

definition toString_or_empty :: "answer option \<Rightarrow> string" where
  "toString_or_empty v =
     (case v of
        None \<Rightarrow> []
      | Some (AStr s) \<Rightarrow> s
      | Some (ANum i) \<Rightarrow> number_toString i
      | Some (AArr xs) \<Rightarrow> join_strings '','' xs)"

text \<open>The key under which \<open>evaluateConditionalNext\<close> looks the answer up.\<close>

definition answerKey :: "FormPage \<Rightarrow> answer option \<Rightarrow> string" where
  "answerKey currentField fieldValue =
     (if ftype currentField = Radio \<or> ftype currentField = Select
        then toString_or_empty fieldValue
      else if ftype currentField = Checkbox
        then (case fieldValue of Some (AArr xs) \<Rightarrow> join_strings '','' xs | _ \<Rightarrow> [])
      else toString_or_empty fieldValue)"

section \<open>Conditional logic helpers\<close>

definition findFieldById :: "FormPage list \<Rightarrow> string \<Rightarrow> FormPage option" where
  "findFieldById flds fieldId = find (\<lambda>field. field_id field = fieldId) flds"

text \<open>\<open>Array.prototype.findIndex\<close>: the first matching index, or \<open>-1\<close>.\<close>

fun findIndex :: "('a \<Rightarrow> bool) \<Rightarrow> 'a list \<Rightarrow> int" where
  "findIndex P [] = - 1"
| "findIndex P (x # xs) =
     (if P x then 0 else (let i = findIndex P xs in if i = - 1 then - 1 else i + 1))"

definition getFieldIndex :: "FormPage list \<Rightarrow> string \<Rightarrow> int" where
  "getFieldIndex flds fieldId = findIndex (\<lambda>field. field_id field = fieldId) flds"

text \<open>
  A looked-up target is followed when it is truthy (a non-empty string) and
  \<open>findFieldById\<close> finds it. The lookup \<open>conditionalNext[answerKey]\<close> is a map lookup:
  a value inherited from the object prototype is not a string and matches no field id.
\<close>

definition evaluateConditionalNext ::
  "FormPage \<Rightarrow> answer option \<Rightarrow> FormPage list \<Rightarrow> string option" where
  "evaluateConditionalNext currentField fieldValue flds =
     (case conditionalNext currentField of
        None \<Rightarrow> None
      | Some rules \<Rightarrow>
          (let nextFieldId = rules (answerKey currentField fieldValue);
               viaRule =
                 (case nextFieldId of
                    None \<Rightarrow> None
                  | Some t \<Rightarrow>
                      if t \<noteq> [] \<and> findFieldById flds t \<noteq> None then Some t else None)
           in case viaRule of
                Some t \<Rightarrow> Some t
              | None \<Rightarrow>
                  (case defaultNext currentField of
                     None \<Rightarrow> None
                   | Some d \<Rightarrow>
                       if d \<noteq> [] \<and> findFieldById flds d \<noteq> None then Some d else None)))"

definition getNextFieldId ::
  "FormPage \<Rightarrow> answer option \<Rightarrow> FormPage list \<Rightarrow> string option" where
  "getNextFieldId currentField fieldValue flds =
     (case evaluateConditionalNext currentField fieldValue flds of
        Some t \<Rightarrow> Some t
      | None \<Rightarrow>
          (let currentIndex = getFieldIndex flds (field_id currentField)
           in if 0 \<le> currentIndex \<and> currentIndex < int (length flds) - 1
              then Some (field_id (flds ! nat (currentIndex + 1)))
              else None))"

section \<open>Navigation state\<close>

record nav_state =
  currentFieldId :: string
  navigationHistory :: "string list"
  formData :: form_data
  error :: bool

text \<open>\<open>fields[0]?.id || ""\<close>\<close>

definition first_field_id :: "FormPage list \<Rightarrow> string" where
  "first_field_id flds = (case flds of [] \<Rightarrow> [] | f # _ \<Rightarrow> field_id f)"

definition initial_state :: "FormPage list \<Rightarrow> nav_state" where
  "initial_state flds =
     \<lparr> currentFieldId = first_field_id flds,
       navigationHistory = [first_field_id flds],
       formData = Map.empty,
       error = False \<rparr>"

definition currentField :: "FormPage list \<Rightarrow> nav_state \<Rightarrow> FormPage option" where
  "currentField flds s = findFieldById flds (currentFieldId s)"

text \<open>The effect that resets the navigation when the current id names no field.\<close>

definition resetIfInvalid :: "FormPage list \<Rightarrow> nav_state \<Rightarrow> nav_state" where
  "resetIfInvalid flds s =
     (case flds of
        [] \<Rightarrow> s
      | f # _ \<Rightarrow>
          if currentField flds s = None
          then s\<lparr> currentFieldId := field_id f, navigationHistory := [field_id f] \<rparr>
          else s)"

definition handleInputChange :: "nav_state \<Rightarrow> string \<Rightarrow> answer \<Rightarrow> nav_state" where
  "handleInputChange s fieldId v = s\<lparr> formData := (formData s)(fieldId \<mapsto> v) \<rparr>"

definition handleCheckboxToggle :: "nav_state \<Rightarrow> string \<Rightarrow> string \<Rightarrow> nav_state" where
  "handleCheckboxToggle s fieldId option =
     (let currentValues = (case formData s fieldId of Some (AArr xs) \<Rightarrow> xs | _ \<Rightarrow> []);
          newValues =
            (if option \<in> set currentValues
             then filter (\<lambda>v. v \<noteq> option) currentValues
             else currentValues @ [option])
      in s\<lparr> formData := (formData s)(fieldId \<mapsto> AArr newValues) \<rparr>)"

text \<open>The value that validation and branching look at: the override when one is passed.\<close>

definition effective_value :: "FormPage \<Rightarrow> nav_state \<Rightarrow> answer option \<Rightarrow> answer option" where
  "effective_value f s overrideValue =
     (case overrideValue of Some v \<Rightarrow> Some v | None \<Rightarrow> formData s (field_id f))"

definition isValid :: "answer option \<Rightarrow> bool" where
  "isValid v =
     (case v of
        None \<Rightarrow> False
      | Some (AStr str) \<Rightarrow> str \<noteq> []
      | Some (ANum i) \<Rightarrow> True
      | Some (AArr xs) \<Rightarrow> xs \<noteq> [])"

definition validateCurrentField :: "FormPage list \<Rightarrow> nav_state \<Rightarrow> answer option \<Rightarrow> bool" where
  "validateCurrentField flds s overrideValue =
     (case currentField flds s of
        None \<Rightarrow> True
      | Some f \<Rightarrow> if required f then isValid (effective_value f s overrideValue) else True)"

definition handleNext :: "FormPage list \<Rightarrow> nav_state \<Rightarrow> answer option \<Rightarrow> nav_state" where
  "handleNext flds s overrideValue =
     (case currentField flds s of
        None \<Rightarrow> s
      | Some f \<Rightarrow>
          if \<not> validateCurrentField flds s overrideValue then s\<lparr> error := True \<rparr>
          else
            (case getNextFieldId f (effective_value f s overrideValue) flds of
               None \<Rightarrow> s
             | Some nextFieldId \<Rightarrow>
                 if nextFieldId \<noteq> []
                 then s\<lparr> error := False,
                         currentFieldId := nextFieldId,
                         navigationHistory := navigationHistory s @ [nextFieldId] \<rparr>
                 else s))"

definition handlePrevious :: "nav_state \<Rightarrow> nav_state" where
  "handlePrevious s =
     (let prev = navigationHistory s
      in if length prev > 1
         then (let newHistory = butlast prev
               in s\<lparr> error := False,
                       currentFieldId := last newHistory,
                       navigationHistory := newHistory \<rparr>)
         else s\<lparr> error := False \<rparr>)"

datatype nav_op =
  Next "answer option" | Previous | InputChange string answer
  | CheckboxToggle string string | Effect

fun nav_step :: "FormPage list \<Rightarrow> nav_state \<Rightarrow> nav_op \<Rightarrow> nav_state" where
  "nav_step flds s (Next overrideValue) = handleNext flds s overrideValue"
| "nav_step flds s Previous = handlePrevious s"
| "nav_step flds s (InputChange fieldId v) = handleInputChange s fieldId v"
| "nav_step flds s (CheckboxToggle fieldId option) = handleCheckboxToggle s fieldId option"
| "nav_step flds s Effect = resetIfInvalid flds s"

definition nav_run :: "FormPage list \<Rightarrow> nav_op list \<Rightarrow> nav_state" where
  "nav_run flds ops = foldl (nav_step flds) (initial_state flds) ops"

section \<open>Submission actions\<close>

datatype on_success = SuccessContinue | SuccessStop

datatype on_error = ErrorContinue | ErrorStop | ErrorRetry

text \<open>
  \<open>SubmissionAction\<close>, with the members the orchestration reads (\<open>id\<close>, \<open>name\<close> and
  \<open>order\<close> carry a prefix). The transport members (endpoint, key, headers, mapping) are
  read by the per-type senders only, which the model takes as the dispatcher. The numbers
  \<open>order\<close> and \<open>retryAttempts\<close> are integers, as the property controls enter them.
\<close>

record SubmissionAction =
  action_id :: string
  action_name :: string
  enabled :: bool
  action_order :: int
  condition :: "string option"
  onSuccess :: "on_success option"
  onError :: "on_error option"
  retryAttempts :: "int option"

record FormSubmissionConfig =
  actions :: "SubmissionAction list"
  executeInParallel :: bool

subsection \<open>Conditions\<close>

text \<open>The values a JavaScript expression can return, as far as \<open>Boolean(...)\<close> tells apart.\<close>

datatype jsval = JUndefined | JNull | JBool bool | JNum int | JStr string | JObject

fun Boolean :: "jsval \<Rightarrow> bool" where
  "Boolean JUndefined = False"
| "Boolean JNull = False"
| "Boolean (JBool b) = b"
| "Boolean (JNum n) = (n \<noteq> 0)"
| "Boolean (JStr s) = (s \<noteq> [])"
| "Boolean JObject = True"

text \<open>
  \<open>String.prototype.trim\<close> strips white space and line terminators from both ends:
  tab, line feed, vertical tab, form feed, carriage return, space, no-break space, the
  byte order mark, the line and paragraph separators and the other space separators of
  Unicode. Strings are sequences of bytes in UTF-8, so the characters beyond ASCII are
  the two or three bytes of their encoding.
\<close>

definition whitespace_codes :: "string list" where
  "whitespace_codes =
     [[CHR 0x09], [CHR 0x0A], [CHR 0x0B], [CHR 0x0C], [CHR 0x0D], [CHR 0x20],
      [CHR 0xC2, CHR 0xA0],
      [CHR 0xE1, CHR 0x9A, CHR 0x80],
      [CHR 0xE2, CHR 0x80, CHR 0x80], [CHR 0xE2, CHR 0x80, CHR 0x81],
      [CHR 0xE2, CHR 0x80, CHR 0x82], [CHR 0xE2, CHR 0x80, CHR 0x83],
      [CHR 0xE2, CHR 0x80, CHR 0x84], [CHR 0xE2, CHR 0x80, CHR 0x85],
      [CHR 0xE2, CHR 0x80, CHR 0x86], [CHR 0xE2, CHR 0x80, CHR 0x87],
      [CHR 0xE2, CHR 0x80, CHR 0x88], [CHR 0xE2, CHR 0x80, CHR 0x89],
      [CHR 0xE2, CHR 0x80, CHR 0x8A],
      [CHR 0xE2, CHR 0x80, CHR 0xA8], [CHR 0xE2, CHR 0x80, CHR 0xA9],
      [CHR 0xE2, CHR 0x80, CHR 0xAF],
      [CHR 0xE2, CHR 0x81, CHR 0x9F],
      [CHR 0xE3, CHR 0x80, CHR 0x80],
      [CHR 0xEF, CHR 0xBB, CHR 0xBF]]"

text \<open>
  The number of bytes of the code in the list that the string starts with, 0 when it
  starts with none; and the string without the codes it starts with.
\<close>

definition leading_length :: "string list \<Rightarrow> string \<Rightarrow> nat" where
  "leading_length codes s =
     (case find (\<lambda>code. take (length code) s = code) codes of
        None \<Rightarrow> 0
      | Some code \<Rightarrow> length code)"

function strip_leading :: "string list \<Rightarrow> string \<Rightarrow> string" where
  "strip_leading codes s =
     (let n = leading_length codes s in if n = 0 then s else strip_leading codes (drop n s))"
  by pat_completeness auto
termination
proof (relation "measure (\<lambda>(codes, s). length s)")
  show "wf (measure (\<lambda>(codes, s). length s))" by simp
next
  fix codes :: "string list" and s :: string and n
  assume n: "n = leading_length codes s" and pos: "n \<noteq> 0"
  then obtain code where "find (\<lambda>code. take (length code) s = code) codes = Some code"
    and len: "n = length code"
    by (auto simp: leading_length_def split: option.splits)
  then have "take (length code) s = code" by (auto simp: find_Some_iff)
  then have "length code \<le> length s" by (metis length_take min.cobounded2 min.commute min_def)
  moreover from len pos have "0 < length code" by simp
  ultimately have "length s - length code < length s" by arith
  with len show "((codes, drop n s), (codes, s)) \<in> measure (\<lambda>(codes, s). length s)"
    by simp
qed

declare strip_leading.simps [simp del]

definition trim :: "string \<Rightarrow> string" where
  "trim s = rev (strip_leading (map rev whitespace_codes) (rev (strip_leading whitespace_codes s)))"

text \<open>
  \<open>new Function("formData", body)(formData)\<close> is the host engine compiling and running
  the text \<open>body\<close>: \<open>Inl\<close> is the exception it throws (a \<open>SyntaxError\<close> for text that
  does not parse, or whatever the code throws when run), \<open>Inr\<close> the value returned.
\<close>

type_synonym host_function = "string \<Rightarrow> form_data \<Rightarrow> string + jsval"

definition evaluateCondition :: "host_function \<Rightarrow> string option \<Rightarrow> form_data \<Rightarrow> bool" where
  "evaluateCondition newFunction cond formData' =
     (case cond of
        None \<Rightarrow> True
      | Some c \<Rightarrow>
          if c = [] \<or> trim c = [] then True
          else (case newFunction (''return '' @ c) formData' of
                  Inl e \<Rightarrow> True
                | Inr v \<Rightarrow> Boolean v))"

subsection \<open>Dispatching\<close>

text \<open>
  \<open>executeAction\<close> sends one action over its transport. The model takes it as a
  parameter acting on the outside world \<open>'w\<close>: \<open>Inl\<close> is the message of the error it
  throws, \<open>Inr\<close> the response. The log records, in order, every call of the dispatcher
  and every back-off wait (in milliseconds).
\<close>

record submission_data =
  sd_formData :: form_data
  sd_navigationPath :: "string list"

type_synonym ('w, 'r) dispatcher =
  "SubmissionAction \<Rightarrow> submission_data \<Rightarrow> 'w \<Rightarrow> (string + 'r) \<times> 'w"

datatype event = Dispatch SubmissionAction | Delay nat

text \<open>\<open>action.retryAttempts || 1\<close>\<close>

definition maxAttempts :: "SubmissionAction \<Rightarrow> int" where
  "maxAttempts a = (case retryAttempts a of None \<Rightarrow> 1 | Some n \<Rightarrow> if n = 0 then 1 else n)"

function executeActionWithRetry ::
  "('w, 'r) dispatcher \<Rightarrow> SubmissionAction \<Rightarrow> submission_data \<Rightarrow> nat \<Rightarrow> 'w \<Rightarrow> event list
     \<Rightarrow> (string + 'r) \<times> 'w \<times> event list" where
  "executeActionWithRetry executeAction a d attempt w log =
     (let r = executeAction a d w; log1 = log @ [Dispatch a]
      in case fst r of
           Inr v \<Rightarrow> (Inr v, snd r, log1)
         | Inl e \<Rightarrow>
             if int attempt < maxAttempts a \<and> onError a = Some ErrorRetry
             then executeActionWithRetry executeAction a d (attempt + 1) (snd r)
                    (log1 @ [Delay (2 ^ attempt * 1000)])
             else (Inl e, snd r, log1))"
  by pat_completeness auto
termination
  by (relation "measure (\<lambda>(ex, a, d, attempt, w, log). nat (maxAttempts a - int attempt))") auto

declare executeActionWithRetry.simps [simp del]

subsection \<open>The orchestrator\<close>

record 'r action_result =
  r_action :: string
  r_success :: bool
  r_data :: "'r option"
  r_error :: "string option"

record summary =
  successful :: nat
  failed :: nat
  skipped :: nat

record ('w, 'r) run_state =
  results :: "'r action_result list"
  counts :: summary
  world :: 'w
  calls :: "event list"

definition success_result :: "SubmissionAction \<Rightarrow> 'r \<Rightarrow> 'r action_result" where
  "success_result a v =
     \<lparr> r_action = action_name a, r_success = True, r_data = Some v, r_error = None \<rparr>"

definition failure_result :: "SubmissionAction \<Rightarrow> string \<Rightarrow> 'r action_result" where
  "failure_result a e =
     \<lparr> r_action = action_name a, r_success = False, r_data = None, r_error = Some e \<rparr>"

text \<open>
  One pass through the body of the sequential \<open>for\<close> loop; the flag tells that the pass
  ended in \<open>break\<close>.
\<close>

definition sequential_step ::
  "('w, 'r) dispatcher \<Rightarrow> submission_data \<Rightarrow> SubmissionAction \<Rightarrow> ('w, 'r) run_state
     \<Rightarrow> bool \<times> ('w, 'r) run_state" where
  "sequential_step executeAction d a st =
     (case executeActionWithRetry executeAction a d 1 (world st) (calls st) of
        (Inr v, w', log') \<Rightarrow>
          (onSuccess a = Some SuccessStop,
           st\<lparr> results := results st @ [success_result a v],
               counts := (counts st)\<lparr> successful := successful (counts st) + 1 \<rparr>,
               world := w', calls := log' \<rparr>)
      | (Inl e, w', log') \<Rightarrow>
          (onError a = Some ErrorStop,
           st\<lparr> results := results st @ [failure_result a e],
               counts := (counts st)\<lparr> failed := failed (counts st) + 1 \<rparr>,
               world := w', calls := log' \<rparr>))"

fun sequential_loop ::
  "('w, 'r) dispatcher \<Rightarrow> submission_data \<Rightarrow> SubmissionAction list \<Rightarrow> ('w, 'r) run_state
     \<Rightarrow> ('w, 'r) run_state" where
  "sequential_loop executeAction d [] st = st"
| "sequential_loop executeAction d (a # rest) st =
     (case sequential_step executeAction d a st of
        (stop, st') \<Rightarrow> if stop then st' else sequential_loop executeAction d rest st')"

text \<open>
  The parallel branch calls \<open>executeAction\<close> once for every action, in list order, and
  \<open>Promise.all\<close> returns the results in list order. The model settles each call as it
  is started, which is one of the possible schedules.
\<close>

fun parallel_dispatch ::
  "('w, 'r) dispatcher \<Rightarrow> submission_data \<Rightarrow> SubmissionAction list \<Rightarrow> 'w \<Rightarrow> event list
     \<Rightarrow> 'r action_result list \<times> 'w \<times> event list" where
  "parallel_dispatch executeAction d [] w log = ([], w, log)"
| "parallel_dispatch executeAction d (a # rest) w log =
     (let r = executeAction a d w;
          res = (case fst r of Inr v \<Rightarrow> success_result a v | Inl e \<Rightarrow> failure_result a e)
      in case parallel_dispatch executeAction d rest (snd r) (log @ [Dispatch a]) of
           (rs, w', log') \<Rightarrow> (res # rs, w', log'))"

definition parallel_run ::
  "('w, 'r) dispatcher \<Rightarrow> submission_data \<Rightarrow> SubmissionAction list \<Rightarrow> ('w, 'r) run_state
     \<Rightarrow> ('w, 'r) run_state" where
  "parallel_run executeAction d acts st =
     (case parallel_dispatch executeAction d acts (world st) (calls st) of
        (parallelResults, w', log') \<Rightarrow>
          st\<lparr> results := results st @ parallelResults,
              counts := (counts st)
                \<lparr> successful := length (filter r_success parallelResults),
                  failed := length (filter (\<lambda>r. \<not> r_success r) parallelResults) \<rparr>,
              world := w', calls := log' \<rparr>)"

definition enabledActions ::
  "host_function \<Rightarrow> FormSubmissionConfig \<Rightarrow> form_data \<Rightarrow> SubmissionAction list" where
  "enabledActions newFunction config formData' =
     filter (\<lambda>a. evaluateCondition newFunction (condition a) formData')
       (sort_key action_order (filter enabled (actions config)))"

record ('w, 'r) outcome =
  success :: bool
  out_results :: "'r action_result list"
  out_summary :: summary
  out_world :: 'w
  out_calls :: "event list"

definition executeActions ::
  "host_function \<Rightarrow> ('w, 'r) dispatcher \<Rightarrow> FormSubmissionConfig \<Rightarrow> form_data \<Rightarrow> string list
     \<Rightarrow> 'w \<Rightarrow> ('w, 'r) outcome" where
  "executeActions newFunction executeAction config formData' navigationPath w =
     (let submissionData = \<lparr> sd_formData = formData', sd_navigationPath = navigationPath \<rparr>;
          acts = enabledActions newFunction config formData';
          st0 = \<lparr> results = [],
                  counts = \<lparr> successful = 0, failed = 0, skipped = 0 \<rparr>,
                  world = w, calls = [] \<rparr>;
          st = (if executeInParallel config
                then parallel_run executeAction submissionData acts st0
                else sequential_loop executeAction submissionData acts st0);
          overallSuccess = (failed (counts st) = 0 \<and> successful (counts st) > 0)
      in \<lparr> success = overallSuccess, out_results = results st, out_summary = counts st,
           out_world = world st, out_calls = calls st \<rparr>)"

section \<open>Notions used to state the properties\<close>

subsection \<open>Navigation\<close>

text \<open>The field that follows the first field with the given id in the list, if any.\<close>

fun linear_successor :: "FormPage list \<Rightarrow> string \<Rightarrow> string option" where
  "linear_successor [] fid = None"
| "linear_successor [x] fid = None"
| "linear_successor (x # y # ys) fid =
     (if field_id x = fid then Some (field_id y) else linear_successor (y # ys) fid)"

text \<open>The linear fallback of \<open>getNextFieldId\<close>, on its own.\<close>

definition linear_by_index :: "FormPage list \<Rightarrow> string \<Rightarrow> string option" where
  "linear_by_index flds fid =
     (let i = getFieldIndex flds fid
      in if 0 \<le> i \<and> i < int (length flds) - 1 then Some (field_id (flds ! nat (i + 1))) else None)"

text \<open>A target resolves when it is set (a non-empty id) and names a field of the collection.\<close>

definition resolvable :: "FormPage list \<Rightarrow> string option \<Rightarrow> bool" where
  "resolvable flds target =
     (case target of None \<Rightarrow> False | Some t \<Rightarrow> t \<noteq> [] \<and> t \<in> field_id ` set flds)"

definition rule_target :: "FormPage \<Rightarrow> answer option \<Rightarrow> string option" where
  "rule_target f v =
     (case conditionalNext f of None \<Rightarrow> None | Some rules \<Rightarrow> rules (answerKey f v))"

text \<open>
  The precedence as the specification words it: the branch target for the answer, else
  \<open>defaultNext\<close>, else the linear order, whether or not the field has branching rules.
\<close>

definition spec_getNextFieldId ::
  "FormPage \<Rightarrow> answer option \<Rightarrow> FormPage list \<Rightarrow> string option" where
  "spec_getNextFieldId f v flds =
     (if resolvable flds (rule_target f v) then rule_target f v
      else if resolvable flds (defaultNext f) then defaultNext f
      else linear_successor flds (field_id f))"

definition empty_or_absent :: "answer option \<Rightarrow> bool" where
  "empty_or_absent v = (v = None \<or> v = Some (AStr []) \<or> v = Some (AArr []))"

definition nav_inv :: "FormPage list \<Rightarrow> nav_state \<Rightarrow> bool" where
  "nav_inv flds s =
     (navigationHistory s \<noteq> [] \<and>
      hd (navigationHistory s) = first_field_id flds \<and>
      last (navigationHistory s) = currentFieldId s)"

text \<open>The field id that an advance resolves to, when it resolves to one.\<close>

definition resolved_next :: "FormPage list \<Rightarrow> nav_state \<Rightarrow> answer option \<Rightarrow> string option" where
  "resolved_next flds s ov =
     (case currentField flds s of
        None \<Rightarrow> None
      | Some f \<Rightarrow>
          if required f \<and> empty_or_absent (effective_value f s ov) then None
          else (case getNextFieldId f (effective_value f s ov) flds of
                  None \<Rightarrow> None
                | Some n \<Rightarrow> if n = [] then None else Some n))"

subsection \<open>Orchestration\<close>

text \<open>The actions dispatched and the waits made, as the log of a run records them.\<close>

fun dispatched :: "event list \<Rightarrow> SubmissionAction list" where
  "dispatched [] = []"
| "dispatched (Dispatch a # es) = a # dispatched es"
| "dispatched (Delay n # es) = dispatched es"

fun delays :: "event list \<Rightarrow> nat list" where
  "delays [] = []"
| "delays (Dispatch a # es) = delays es"
| "delays (Delay n # es) = n # delays es"

definition backoff :: "nat \<Rightarrow> nat" where
  "backoff n = 2 ^ n * 1000"

text \<open>
  The outside world after \<open>i\<close> calls of the dispatcher for one action, what the
  \<open>i\<close>-th call returns (counting from 1), and the log of \<open>k\<close> attempts: a dispatch,
  then for each further attempt the wait and the next dispatch.
\<close>

fun world_after ::
  "('w, 'r) dispatcher \<Rightarrow> SubmissionAction \<Rightarrow> submission_data \<Rightarrow> 'w \<Rightarrow> nat \<Rightarrow> 'w" where
  "world_after ex a d w 0 = w"
| "world_after ex a d w (Suc i) = snd (ex a d (world_after ex a d w i))"

definition attempt_outcome ::
  "('w, 'r) dispatcher \<Rightarrow> SubmissionAction \<Rightarrow> submission_data \<Rightarrow> 'w \<Rightarrow> nat \<Rightarrow> string + 'r" where
  "attempt_outcome ex a d w i = fst (ex a d (world_after ex a d w (i - 1)))"

definition attempt_log :: "SubmissionAction \<Rightarrow> nat \<Rightarrow> event list" where
  "attempt_log a k = concat (map (\<lambda>i. [Dispatch a, Delay (backoff i)]) [1 ..< k]) @ [Dispatch a]"

text \<open>
  Whether the sequential loop over the given actions leaves by \<open>break\<close>, and whether the
  counters of a run agree with its list of results.
\<close>

fun loop_breaks ::
  "('w, 'r) dispatcher \<Rightarrow> submission_data \<Rightarrow> SubmissionAction list \<Rightarrow> ('w, 'r) run_state \<Rightarrow> bool" where
  "loop_breaks ex d [] st = False"
| "loop_breaks ex d (a # rest) st =
     (case sequential_step ex d a st of (stop, st') \<Rightarrow> stop \<or> loop_breaks ex d rest st')"


definition start_state :: "'w \<Rightarrow> ('w, 'r) run_state" where
  "start_state w =
     \<lparr> results = [], counts = \<lparr> successful = 0, failed = 0, skipped = 0 \<rparr>,
       world = w, calls = [] \<rparr>"

subsection \<open>Example forms\<close>

definition plain_field :: "string \<Rightarrow> FormPage" where
  "plain_field i =
     \<lparr> field_id = i, ftype = Text, required = False, conditionalNext = None,
       defaultNext = None \<rparr>"

text \<open>The form \<open>Q1 (radio: Yes \<rightarrow> Q3, No \<rightarrow> Q2), Q2, Q3\<close>.\<close>

definition branch_Q1 :: FormPage where
  "branch_Q1 =
     \<lparr> field_id = ''Q1'', ftype = Radio, required = True,
       conditionalNext = Some [''Yes'' \<mapsto> ''Q3'', ''No'' \<mapsto> ''Q2'', ''Other'' \<mapsto> ''Q9''],
       defaultNext = Some ''Q8'' \<rparr>"

definition branch_form :: "FormPage list" where
  "branch_form = [branch_Q1, plain_field ''Q2'', plain_field ''Q3'']"

text \<open>Answering \<open>Yes\<close> on the first field and advancing.\<close>

definition yes_then_next :: "nav_op list" where
  "yes_then_next = [InputChange ''Q1'' (AStr ''Yes''), Next None]"

text \<open>A field with a default target and no branching rules, in a form of three fields.\<close>

definition default_only_q1 :: FormPage where
  "default_only_q1 = (plain_field ''q1'')\<lparr> defaultNext := Some ''q3'' \<rparr>"

definition default_only_form :: "FormPage list" where
  "default_only_form = [default_only_q1, plain_field ''q2'', plain_field ''q3'']"

text \<open>The same field and form with an empty map of branching rules.\<close>

definition empty_rules_q1 :: FormPage where
  "empty_rules_q1 = default_only_q1\<lparr> conditionalNext := Some Map.empty \<rparr>"

definition empty_rules_form :: "FormPage list" where
  "empty_rules_form = [empty_rules_q1, plain_field ''q2'', plain_field ''q3'']"

subsection \<open>Example submissions\<close>

text \<open>An enabled action without condition, stop directive or retry policy.\<close>

definition plain_action :: "string \<Rightarrow> int \<Rightarrow> SubmissionAction" where
  "plain_action nm ord =
     \<lparr> action_id = nm, action_name = nm, enabled = True, action_order = ord,
       condition = None, onSuccess = None, onError = None, retryAttempts = None \<rparr>"

definition retry_action :: SubmissionAction where
  "retry_action = (plain_action ''A'' 1)\<lparr> onError := Some ErrorRetry, retryAttempts := Some 3 \<rparr>"

text \<open>
  Dispatchers whose outside world is the number of calls made so far: one fails on its
  first \<open>n\<close> calls and succeeds afterwards, one fails for the action of a given name.
\<close>

definition fails_first :: "nat \<Rightarrow> (nat, string) dispatcher" where
  "fails_first n a d w = (if w < n then Inl ''unreachable'' else Inr ''ok'', Suc w)"

definition fails_for :: "string \<Rightarrow> (nat, string) dispatcher" where
  "fails_for nm a d w = (if action_name a = nm then Inl ''refused'' else Inr ''ok'', Suc w)"

text \<open>
  Host engines, as far as the examples go. The first knows the expression
  \<open>formData.age >= 18\<close> over a numeric or missing age, the second the expression
  \<open>Date.now() % 2 === 0\<close> at the clock reading \<open>now\<close>; the truncated text
  \<open>formData.age >=\<close> does not parse. Other inputs are not used.
\<close>

definition age_host :: host_function where
  "age_host body fd =
     (if body = ''return formData.age >= 18'' then
        (case fd ''age'' of
           None \<Rightarrow> Inr (JBool False)
         | Some (ANum n) \<Rightarrow> Inr (JBool (18 \<le> n))
         | Some other \<Rightarrow> Inl ''not modelled'')
      else Inl ''SyntaxError'')"

definition clock_host :: "nat \<Rightarrow> host_function" where
  "clock_host now body fd =
     (if body = ''return Date.now() % 2 === 0'' then Inr (JBool (now mod 2 = 0))
      else Inl ''SyntaxError'')"

definition no_data :: submission_data where
  "no_data = \<lparr> sd_formData = Map.empty, sd_navigationPath = [] \<rparr>"

definition adults_only :: SubmissionAction where
  "adults_only = (plain_action ''adults'' 1)\<lparr> condition := Some ''formData.age >= 18'' \<rparr>"

definition stop_on_error :: SubmissionAction where
  "stop_on_error = (plain_action ''A'' 1)\<lparr> onError := Some ErrorStop \<rparr>"

definition stop_on_success :: SubmissionAction where
  "stop_on_success = (plain_action ''A'' 1)\<lparr> onSuccess := Some SuccessStop \<rparr>"

definition broken_condition :: SubmissionAction where
  "broken_condition = (plain_action ''broken'' 1)\<lparr> condition := Some ''formData.age >='' \<rparr>"


definition minors_skipped :: FormSubmissionConfig where
  "minors_skipped = \<lparr> actions = [adults_only], executeInParallel = False \<rparr>"

section \<open>Properties of the navigation\<close>

lemma findFieldById_None_iff: "findFieldById flds t = None \<longleftrightarrow> t \<notin> field_id ` set flds"
  by (induction flds) (auto simp: findFieldById_def)

lemma findIndex_bounds:
  "findIndex P xs = - 1 \<or> (0 \<le> findIndex P xs \<and> findIndex P xs < int (length xs))"
  by (induction xs) (auto simp: Let_def)

lemma getFieldIndex_Nil: "getFieldIndex [] fid = - 1"
  by (simp add: getFieldIndex_def)

lemma getFieldIndex_Cons:
  "getFieldIndex (x # xs) fid =
     (if field_id x = fid then 0
      else if getFieldIndex xs fid = - 1 then - 1 else getFieldIndex xs fid + 1)"
  by (simp add: getFieldIndex_def Let_def)

lemma getFieldIndex_bounds:
  "getFieldIndex flds fid = - 1 \<or>
   (0 \<le> getFieldIndex flds fid \<and> getFieldIndex flds fid < int (length flds))"
  unfolding getFieldIndex_def by (rule findIndex_bounds)

text \<open>The index arithmetic of the linear fallback picks the successor in the list.\<close>

lemma linear_index: "linear_by_index flds fid = linear_successor flds fid"
proof (induction flds fid rule: linear_successor.induct)
  case (1 fid)
  then show ?case by (simp add: linear_by_index_def getFieldIndex_Nil)
next
  case (2 x fid)
  then show ?case by (simp add: linear_by_index_def getFieldIndex_Cons getFieldIndex_Nil)
next
  case (3 x y ys fid)
  show ?case
  proof (cases "field_id x = fid")
    case True
    then show ?thesis by (simp add: linear_by_index_def getFieldIndex_Cons)
  next
    case False
    define j where "j = getFieldIndex (y # ys) fid"
    have b: "j = - 1 \<or> (0 \<le> j \<and> j < int (length (y # ys)))"
      unfolding j_def by (rule getFieldIndex_bounds)
    have ih: "(if 0 \<le> j \<and> j < int (length (y # ys)) - 1
               then Some (field_id ((y # ys) ! nat (j + 1))) else None)
              = linear_successor (y # ys) fid"
      using 3 False unfolding j_def linear_by_index_def Let_def by simp
    have idx: "getFieldIndex (x # y # ys) fid = (if j = - 1 then - 1 else j + 1)"
      using False unfolding j_def by (subst getFieldIndex_Cons) simp
    show ?thesis
    proof (cases "j = - 1")
      case True
      then show ?thesis using ih idx False unfolding linear_by_index_def Let_def by simp
    next
      case nj: False
      with b have j0: "0 \<le> j" by auto
      then have n: "nat (j + 1 + 1) = Suc (nat (j + 1))" by simp
      have "linear_by_index (x # y # ys) fid =
            (if j + 1 < int (length (x # y # ys)) - 1
             then Some (field_id ((x # y # ys) ! nat (j + 1 + 1))) else None)"
        unfolding linear_by_index_def Let_def idx using nj j0 by simp
      also have "\<dots> = (if j < int (length (y # ys)) - 1
             then Some (field_id ((y # ys) ! nat (j + 1))) else None)"
        unfolding n by simp
      also have "\<dots> = linear_successor (y # ys) fid" using ih j0 by simp
      finally show ?thesis using False by simp
    qed
  qed
qed

lemma evaluateConditionalNext_eq:
  "evaluateConditionalNext f v flds =
     (case conditionalNext f of
        None \<Rightarrow> None
      | Some rules \<Rightarrow>
          if resolvable flds (rules (answerKey f v)) then rules (answerKey f v)
          else if resolvable flds (defaultNext f) then defaultNext f else None)"
  by (auto simp: evaluateConditionalNext_def resolvable_def findFieldById_None_iff Let_def
      split: option.splits)

text \<open>
  What \<open>getNextFieldId\<close> computes. For a field that carries branching rules
  (\<open>conditionalNext\<close>) it is the precedence of the specification: the rule's target for
  the stringified answer when it is set and names an existing field, else \<open>defaultNext\<close>
  when it is set and names an existing field, else the next field in linear order (none
  after the last field); a dangling target falls through to the next rule. For a field
  without branching rules it is the next field in linear order.
\<close>

lemma getNextFieldId_precedence:
  "(conditionalNext f \<noteq> None \<longrightarrow> getNextFieldId f v flds = spec_getNextFieldId f v flds) \<and>
   (conditionalNext f = None \<longrightarrow> getNextFieldId f v flds = linear_successor flds (field_id f))"
  using linear_index [of flds "field_id f"]
  by (auto simp: linear_by_index_def getNextFieldId_def spec_getNextFieldId_def rule_target_def
      evaluateConditionalNext_eq resolvable_def split: option.splits)

lemmas example_forms =
  branch_form_def branch_Q1_def plain_field_def default_only_form_def default_only_q1_def
  empty_rules_q1_def empty_rules_form_def

lemma getNextFieldId_precedence_examples:
  "conditionalNext branch_Q1 \<noteq> None \<and>
   getNextFieldId branch_Q1 (Some (AStr ''Yes'')) branch_form = Some ''Q3'' \<and>
   getNextFieldId branch_Q1 (Some (AStr ''No'')) branch_form = Some ''Q2'' \<and>
   getNextFieldId branch_Q1 (Some (AStr ''Other'')) branch_form = Some ''Q2'' \<and>
   conditionalNext (plain_field ''Q2'') = None \<and>
   getNextFieldId (plain_field ''Q2'') None branch_form = Some ''Q3'' \<and>
   getNextFieldId (plain_field ''Q3'') None branch_form = None"
  using getNextFieldId_precedence [of branch_Q1 "Some (AStr ''Yes'')" branch_form]
    getNextFieldId_precedence [of branch_Q1 "Some (AStr ''No'')" branch_form]
    getNextFieldId_precedence [of branch_Q1 "Some (AStr ''Other'')" branch_form]
    getNextFieldId_precedence [of "plain_field ''Q2''" None branch_form]
    getNextFieldId_precedence [of "plain_field ''Q3''" None branch_form]
  by (simp add: example_forms spec_getNextFieldId_def resolvable_def rule_target_def
      answerKey_def toString_or_empty_def)

text \<open>
  C1, at an input where the precedence is broken. The field \<open>q1\<close> has no branching
  rules and a \<open>defaultNext\<close> that names the existing field \<open>q3\<close>, as the conversion
  of the authored fields produces it when conditional logic is switched on and no rule is
  entered. The guard at the head of \<open>evaluateConditionalNext\<close> returns before
  \<open>defaultNext\<close> is looked at, and the advance goes to \<open>q2\<close>, the next field in
  linear order, where the precedence gives \<open>q3\<close>. With an empty map of rules in place
  of the missing one the same field advances to \<open>q3\<close>.
\<close>

theorem getNextFieldId_skips_defaultNext:
  "conditionalNext default_only_q1 = None \<and>
   defaultNext default_only_q1 = Some ''q3'' \<and>
   findFieldById default_only_form ''q3'' = Some (plain_field ''q3'') \<and>
   getNextFieldId default_only_q1 None default_only_form = Some ''q2'' \<and>
   spec_getNextFieldId default_only_q1 None default_only_form = Some ''q3'' \<and>
   getNextFieldId empty_rules_q1 None empty_rules_form = Some ''q3''"
  by (simp add: example_forms getNextFieldId_def evaluateConditionalNext_def getFieldIndex_def
      findFieldById_def spec_getNextFieldId_def resolvable_def rule_target_def)

lemma isValid_iff: "isValid v \<longleftrightarrow> \<not> empty_or_absent v"
  by (auto simp: isValid_def empty_or_absent_def split: option.splits answer.splits)

text \<open>
  C2. When the current field is required and its answer (the override passed to the
  advance, else the stored answer) is empty or absent, \<open>handleNext\<close> changes nothing but
  the error flag, which it sets: the current field id and the navigation history stay.
  Storing an answer does not validate: \<open>handleInputChange\<close> stores any value, the empty
  one too, and leaves the error flag, the current field and the history as they are.
\<close>

theorem handleNext_rejects_empty_required:
  "(currentField flds s = Some f \<and> required f \<and>
      empty_or_absent (effective_value f s overrideValue)
      \<longrightarrow> handleNext flds s overrideValue = s\<lparr> error := True \<rparr> \<and>
          currentFieldId (handleNext flds s overrideValue) = currentFieldId s \<and>
          navigationHistory (handleNext flds s overrideValue) = navigationHistory s \<and>
          error (handleNext flds s overrideValue)) \<and>
   formData (handleInputChange s fieldId v) fieldId = Some v \<and>
   error (handleInputChange s fieldId v) = error s \<and>
   currentFieldId (handleInputChange s fieldId v) = currentFieldId s \<and>
   navigationHistory (handleInputChange s fieldId v) = navigationHistory s"
  by (simp add: handleNext_def validateCurrentField_def isValid_iff handleInputChange_def)

theorem handleNext_rejects_empty_required_witness:
  "currentField branch_form (initial_state branch_form) = Some branch_Q1 \<and>
   required branch_Q1 \<and>
   empty_or_absent (effective_value branch_Q1 (initial_state branch_form) None) \<and>
   currentFieldId (handleNext branch_form (initial_state branch_form) None) = ''Q1'' \<and>
   navigationHistory (handleNext branch_form (initial_state branch_form) None) = [''Q1''] \<and>
   error (handleNext branch_form (initial_state branch_form) None) \<and>
   \<not> error (handleInputChange (initial_state branch_form) ''Q1'' (AStr []))"
  using handleNext_rejects_empty_required
    [of branch_form "initial_state branch_form" branch_Q1 None "''Q1''" "AStr []"]
  by (simp add: example_forms currentField_def findFieldById_def initial_state_def
      first_field_id_def empty_or_absent_def effective_value_def)

lemma nav_inv_initial: "nav_inv flds (initial_state flds)"
  by (simp add: nav_inv_def initial_state_def)

lemma nav_inv_handleNext: "nav_inv flds s \<Longrightarrow> nav_inv flds (handleNext flds s ov)"
  by (auto simp: nav_inv_def handleNext_def split: option.splits)

lemma nav_inv_handlePrevious:
  assumes "nav_inv flds s"
  shows "nav_inv flds (handlePrevious s)"
proof (cases "length (navigationHistory s) > 1")
  case True
  then obtain x y zs where "navigationHistory s = x # y # zs"
    by (cases "navigationHistory s"; cases "tl (navigationHistory s)") auto
  then show ?thesis using assms by (simp add: nav_inv_def handlePrevious_def Let_def)
next
  case False
  then show ?thesis using assms by (simp add: nav_inv_def handlePrevious_def Let_def)
qed

lemma nav_inv_resetIfInvalid: "nav_inv flds s \<Longrightarrow> nav_inv flds (resetIfInvalid flds s)"
  by (auto simp: nav_inv_def resetIfInvalid_def first_field_id_def split: list.splits)

lemma nav_inv_step:
  assumes "nav_inv flds s"
  shows "nav_inv flds (nav_step flds s op)"
proof (cases op)
  case (Next ov)
  then show ?thesis using assms by (simp add: nav_inv_handleNext)
next
  case Previous
  then show ?thesis using assms by (simp add: nav_inv_handlePrevious)
next
  case (InputChange i v)
  then show ?thesis using assms by (simp add: nav_inv_def handleInputChange_def)
next
  case (CheckboxToggle i v)
  then show ?thesis using assms by (simp add: nav_inv_def handleCheckboxToggle_def Let_def)
next
  case Effect
  then show ?thesis using assms by (simp add: nav_inv_resetIfInvalid)
qed

lemma nav_inv_run: "nav_inv flds (nav_run flds ops)"
  unfolding nav_run_def
  by (induction ops rule: rev_induct) (simp_all add: nav_inv_initial nav_inv_step)

lemma handlePrevious_single:
  "length (navigationHistory s) = 1 \<Longrightarrow> handlePrevious s = s\<lparr> error := False \<rparr>"
  by (simp add: handlePrevious_def)

lemma handlePrevious_pop:
  "length (navigationHistory s) > 1 \<Longrightarrow> last (navigationHistory s) = currentFieldId s \<Longrightarrow>
   navigationHistory s = navigationHistory (handlePrevious s) @ [currentFieldId s] \<and>
   currentFieldId (handlePrevious s) = last (navigationHistory (handlePrevious s))"
  by (cases "navigationHistory s" rule: rev_cases) (auto simp add: handlePrevious_def Let_def)

lemma handleNext_append:
  "handleNext flds s ov =
     (case resolved_next flds s ov of
        None \<Rightarrow>
          (if currentField flds s \<noteq> None \<and> \<not> validateCurrentField flds s ov
           then s\<lparr> error := True \<rparr> else s)
      | Some n \<Rightarrow>
          s\<lparr> error := False, currentFieldId := n,
             navigationHistory := navigationHistory s @ [n] \<rparr>)"
  by (auto simp: handleNext_def resolved_next_def validateCurrentField_def isValid_iff
      split: option.splits)

text \<open>
  C3. In every state \<open>s\<close> that a sequence of advances, retreats, answer edits and runs of
  the reset effect reaches from the initial state, the navigation history is non-empty,
  starts with the first field's id and ends with the current field's id. A retreat from
  \<open>s\<close> leaves history and current field as they are when the history has one entry, and
  otherwise removes the current field from the end of the history and makes the new last
  entry current. An advance from \<open>s\<close> appends the field id it resolves to and makes it
  current, and leaves history and current field as they are when it resolves to none.
\<close>

theorem navigationHistory_invariant:
  fixes flds ops ov
  defines "s \<equiv> nav_run flds ops"
  shows "nav_inv flds s \<and>
   (length (navigationHistory s) = 1 \<longrightarrow>
      navigationHistory (handlePrevious s) = navigationHistory s \<and>
      currentFieldId (handlePrevious s) = currentFieldId s) \<and>
   (length (navigationHistory s) > 1 \<longrightarrow>
      navigationHistory s = navigationHistory (handlePrevious s) @ [currentFieldId s] \<and>
      currentFieldId (handlePrevious s) = last (navigationHistory (handlePrevious s))) \<and>
   (case resolved_next flds s ov of
      None \<Rightarrow> navigationHistory (handleNext flds s ov) = navigationHistory s \<and>
               currentFieldId (handleNext flds s ov) = currentFieldId s
    | Some n \<Rightarrow> navigationHistory (handleNext flds s ov) = navigationHistory s @ [n] \<and>
               currentFieldId (handleNext flds s ov) = n)"
proof -
  have inv: "nav_inv flds s" unfolding s_def by (rule nav_inv_run)
  then have l: "last (navigationHistory s) = currentFieldId s" by (simp add: nav_inv_def)
  show ?thesis
    using inv handlePrevious_pop [of s] l
    by (auto simp: handlePrevious_single handleNext_append split: option.splits)
qed

lemmas nav_eval =
  nav_run_def initial_state_def first_field_id_def handleInputChange_def handleNext_def
  handlePrevious_def currentField_def findFieldById_def validateCurrentField_def
  effective_value_def isValid_def getNextFieldId_def evaluateConditionalNext_def
  answerKey_def toString_or_empty_def getFieldIndex_def resolved_next_def empty_or_absent_def

theorem navigationHistory_invariant_witness:
  "length (navigationHistory (nav_run branch_form [])) = 1 \<and>
   navigationHistory (handlePrevious (nav_run branch_form [])) = [''Q1''] \<and>
   currentFieldId (handlePrevious (nav_run branch_form [])) = ''Q1'' \<and>
   resolved_next branch_form (nav_run branch_form []) (Some (AStr ''No'')) = Some ''Q2'' \<and>
   navigationHistory (handleNext branch_form (nav_run branch_form []) (Some (AStr ''No'')))
     = [''Q1'', ''Q2''] \<and>
   navigationHistory (nav_run branch_form yes_then_next) = [''Q1'', ''Q3''] \<and>
   length (navigationHistory (nav_run branch_form yes_then_next)) > 1 \<and>
   navigationHistory (handlePrevious (nav_run branch_form yes_then_next)) = [''Q1''] \<and>
   currentFieldId (handlePrevious (nav_run branch_form yes_then_next)) = ''Q1'' \<and>
   resolved_next branch_form (nav_run branch_form yes_then_next) None = None \<and>
   navigationHistory (handleNext branch_form (nav_run branch_form yes_then_next) None)
     = [''Q1'', ''Q3'']"
  using navigationHistory_invariant [of branch_form "[]" "Some (AStr ''No'')"]
    navigationHistory_invariant [of branch_form yes_then_next None]
  by (simp add: nav_eval example_forms yes_then_next_def Let_def)

section \<open>Properties of the orchestrator\<close>

lemmas trim_eval =
  trim_def strip_leading.simps leading_length_def whitespace_codes_def Let_def

lemma dispatched_append: "dispatched (xs @ ys) = dispatched xs @ dispatched ys"
  by (induction xs rule: dispatched.induct) auto

lemma delays_append: "delays (xs @ ys) = delays xs @ delays ys"
  by (induction xs rule: delays.induct) auto

lemma retry_unfold_success:
  "fst (ex a d w) = Inr v \<Longrightarrow>
   executeActionWithRetry ex a d attempt w log = (Inr v, snd (ex a d w), log @ [Dispatch a])"
  by (subst executeActionWithRetry.simps) (simp add: Let_def)

lemma retry_unfold_again:
  "fst (ex a d w) = Inl e \<Longrightarrow> int attempt < maxAttempts a \<Longrightarrow> onError a = Some ErrorRetry \<Longrightarrow>
   executeActionWithRetry ex a d attempt w log =
   executeActionWithRetry ex a d (attempt + 1) (snd (ex a d w))
     (log @ [Dispatch a, Delay (2 ^ attempt * 1000)])"
  by (subst executeActionWithRetry.simps) (simp add: Let_def)

lemma retry_unfold_give_up:
  "fst (ex a d w) = Inl e \<Longrightarrow> \<not> (int attempt < maxAttempts a \<and> onError a = Some ErrorRetry) \<Longrightarrow>
   executeActionWithRetry ex a d attempt w log = (Inl e, snd (ex a d w), log @ [Dispatch a])"
  by (subst executeActionWithRetry.simps) (auto simp add: Let_def)

lemma retry_log:
  assumes "onError a = Some ErrorRetry" "int attempt \<le> maxAttempts a"
    and "executeActionWithRetry ex a d attempt w log = (res, w', log')"
  shows "\<exists>k. 1 \<le> k \<and> int (attempt + k - 1) \<le> maxAttempts a \<and>
     dispatched log' = dispatched log @ replicate k a \<and>
     delays log' = delays log @ map backoff [attempt ..< attempt + k - 1] \<and>
     (isl res \<longrightarrow> int (attempt + k - 1) = maxAttempts a)"
  using assms(2,3)
proof (induction "nat (maxAttempts a - int attempt)" arbitrary: attempt w log)
  case 0
  then have eq: "int attempt = maxAttempts a" by simp
  show ?case
  proof (cases "fst (ex a d w)")
    case (Inl e)
    with eq 0 have "(res, w', log') = (Inl e, snd (ex a d w), log @ [Dispatch a])"
      by (simp add: retry_unfold_give_up)
    then show ?thesis using eq
      by (intro exI [of _ 1]) (simp add: dispatched_append delays_append)
  next
    case (Inr v)
    with 0 have "(res, w', log') = (Inr v, snd (ex a d w), log @ [Dispatch a])"
      by (simp add: retry_unfold_success)
    then show ?thesis using eq
      by (intro exI [of _ 1]) (simp add: dispatched_append delays_append)
  qed
next
  case (Suc m)
  then have lt: "int attempt < maxAttempts a" by simp
  show ?case
  proof (cases "fst (ex a d w)")
    case (Inr v)
    with Suc have "(res, w', log') = (Inr v, snd (ex a d w), log @ [Dispatch a])"
      by (simp add: retry_unfold_success)
    then show ?thesis using lt
      by (intro exI [of _ 1]) (simp add: dispatched_append delays_append)
  next
    case (Inl e)
    have rec: "executeActionWithRetry ex a d (attempt + 1) (snd (ex a d w))
        (log @ [Dispatch a, Delay (2 ^ attempt * 1000)]) = (res, w', log')"
      using Inl lt assms(1) Suc.prems(2) by (simp add: retry_unfold_again)
    have m: "m = nat (maxAttempts a - int (attempt + 1))" using Suc.hyps(2) by simp
    have le: "int (attempt + 1) \<le> maxAttempts a" using lt by simp
    from Suc.hyps(1) [OF m le rec] obtain k where k:
      "1 \<le> k" "int (attempt + 1 + k - 1) \<le> maxAttempts a"
      "dispatched log' = dispatched (log @ [Dispatch a, Delay (2 ^ attempt * 1000)]) @ replicate k a"
      "delays log' = delays (log @ [Dispatch a, Delay (2 ^ attempt * 1000)]) @ map backoff [attempt + 1 ..< attempt + 1 + k - 1]"
      "isl res \<longrightarrow> int (attempt + 1 + k - 1) = maxAttempts a"
      by blast
    have up: "[attempt ..< attempt + (k + 1) - 1] = attempt # [attempt + 1 ..< attempt + 1 + k - 1]"
      using k(1) by (simp add: upt_conv_Cons)
    show ?thesis
    proof (intro exI [of _ "k + 1"] conjI)
      show "1 \<le> k + 1" by simp
      show "int (attempt + (k + 1) - 1) \<le> maxAttempts a" using k(2) by simp
      show "dispatched log' = dispatched log @ replicate (k + 1) a"
        using k(3) by (simp add: dispatched_append replicate_app_Cons_same)
      show "delays log' = delays log @ map backoff [attempt ..< attempt + (k + 1) - 1]"
        unfolding up using k(4) by (simp add: delays_append backoff_def)
      show "isl res \<longrightarrow> int (attempt + (k + 1) - 1) = maxAttempts a" using k(5) by simp
    qed
  qed
qed

lemma retry_dispatches_only:
  "executeActionWithRetry ex a d attempt w log = (res, w', log') \<Longrightarrow>
   \<exists>k. 1 \<le> k \<and> dispatched log' = dispatched log @ replicate k a"
proof (induction "nat (maxAttempts a - int attempt)" arbitrary: attempt w log)
  case 0
  then have nlt: "\<not> (int attempt < maxAttempts a \<and> onError a = Some ErrorRetry)" by simp
  show ?case
  proof (cases "fst (ex a d w)")
    case (Inl e)
    with nlt 0 have "log' = log @ [Dispatch a]" by (simp add: retry_unfold_give_up)
    then show ?thesis by (intro exI [of _ 1]) (simp add: dispatched_append)
  next
    case (Inr v)
    with 0 have "log' = log @ [Dispatch a]" by (simp add: retry_unfold_success)
    then show ?thesis by (intro exI [of _ 1]) (simp add: dispatched_append)
  qed
next
  case (Suc m)
  show ?case
  proof (cases "fst (ex a d w)")
    case (Inr v)
    with Suc have "log' = log @ [Dispatch a]" by (simp add: retry_unfold_success)
    then show ?thesis by (intro exI [of _ 1]) (simp add: dispatched_append)
  next
    case (Inl e)
    show ?thesis
    proof (cases "int attempt < maxAttempts a \<and> onError a = Some ErrorRetry")
      case False
      with Inl Suc.prems have "log' = log @ [Dispatch a]" by (simp add: retry_unfold_give_up)
      then show ?thesis by (intro exI [of _ 1]) (simp add: dispatched_append)
    next
      case True
      then have rec: "executeActionWithRetry ex a d (attempt + 1) (snd (ex a d w))
          (log @ [Dispatch a, Delay (2 ^ attempt * 1000)]) = (res, w', log')"
        using Inl Suc.prems by (simp add: retry_unfold_again)
      have m: "m = nat (maxAttempts a - int (attempt + 1))" using Suc.hyps(2) by simp
      from Suc.hyps(1) [OF m rec] obtain k where
        "1 \<le> k" "dispatched log' = dispatched (log @ [Dispatch a, Delay (2 ^ attempt * 1000)]) @ replicate k a"
        by blast
      then show ?thesis
        by (intro exI [of _ "k + 1"]) (simp add: dispatched_append replicate_app_Cons_same)
    qed
  qed
qed

lemma sequential_step_cases:
  obtains (ok) v w' log' where
      "executeActionWithRetry ex a d 1 (world st) (calls st) = (Inr v, w', log')"
      "sequential_step ex d a st =
         (onSuccess a = Some SuccessStop,
          st\<lparr> results := results st @ [success_result a v],
              counts := (counts st)\<lparr> successful := successful (counts st) + 1 \<rparr>,
              world := w', calls := log' \<rparr>)"
  | (err) e w' log' where
      "executeActionWithRetry ex a d 1 (world st) (calls st) = (Inl e, w', log')"
      "sequential_step ex d a st =
         (onError a = Some ErrorStop,
          st\<lparr> results := results st @ [failure_result a e],
              counts := (counts st)\<lparr> failed := failed (counts st) + 1 \<rparr>,
              world := w', calls := log' \<rparr>)"
proof -
  obtain res w' log' where r: "executeActionWithRetry ex a d 1 (world st) (calls st) = (res, w', log')"
    by (cases "executeActionWithRetry ex a d 1 (world st) (calls st)") auto
  show thesis
  proof (cases res)
    case (Inl e)
    with r show ?thesis by (intro err [of e w' log']) (simp_all add: sequential_step_def)
  next
    case (Inr v)
    with r show ?thesis by (intro ok [of v w' log']) (simp_all add: sequential_step_def)
  qed
qed

lemma sequential_step_dispatched:
  "\<exists>k. 1 \<le> k \<and>
     dispatched (calls (snd (sequential_step ex d a st))) = dispatched (calls st) @ replicate k a"
proof (cases rule: sequential_step_cases [of ex a d st])
  case (ok v w' log')
  from retry_dispatches_only [OF ok(1)] ok(2) show ?thesis by simp
next
  case (err e w' log')
  from retry_dispatches_only [OF err(1)] err(2) show ?thesis by simp
qed

lemma sequential_loop_append:
  "sequential_loop ex d (pre @ post) st =
     (if loop_breaks ex d pre st then sequential_loop ex d pre st
      else sequential_loop ex d post (sequential_loop ex d pre st))"
  by (induction pre arbitrary: st) (auto split: prod.splits)

lemma sequential_loop_dispatched:
  "set (dispatched (calls (sequential_loop ex d acts st))) \<subseteq> set (dispatched (calls st)) \<union> set acts"
proof (induction acts arbitrary: st)
  case Nil
  then show ?case by simp
next
  case (Cons a acts)
  obtain stop st' where s: "sequential_step ex d a st = (stop, st')"
    by (cases "sequential_step ex d a st") auto
  from sequential_step_dispatched [of ex d a st] s
  have sub: "set (dispatched (calls st')) \<subseteq> set (dispatched (calls st)) \<union> {a}" by auto
  show ?case
  proof (cases stop)
    case True
    with s sub show ?thesis by auto
  next
    case False
    with s have "sequential_loop ex d (a # acts) st = sequential_loop ex d acts st'" by simp
    with Cons [of st'] sub show ?thesis by auto
  qed
qed

lemma sequential_loop_break_at_head:
  "fst (sequential_step ex d a st) \<Longrightarrow>
   sequential_loop ex d (a # rest) st = snd (sequential_step ex d a st)"
  by (cases "sequential_step ex d a st") auto

text \<open>
  C6. In the sequential loop, when the loop reaches an action \<open>a\<close> (no earlier pass left
  by \<open>break\<close>) and the pass for \<open>a\<close> ends in \<open>break\<close>, the run ends in the state
  right after that pass whatever actions follow: results, counters, outside world and
  log are those of the pass for \<open>a\<close>, so no later action is dispatched or counted, and
  the log holds dispatches of the earlier actions and of \<open>a\<close> only. A pass ends in
  \<open>break\<close> exactly when the action succeeded with \<open>onSuccess = stop\<close>, or failed (after
  the retries of \<open>executeActionWithRetry\<close>) with \<open>onError = stop\<close>.
\<close>

theorem sequential_stop:
  "(\<not> loop_breaks ex d pre st \<and> fst (sequential_step ex d a (sequential_loop ex d pre st)) \<longrightarrow>
      sequential_loop ex d (pre @ a # post) st
        = snd (sequential_step ex d a (sequential_loop ex d pre st)) \<and>
      set (dispatched (calls (sequential_loop ex d (pre @ a # post) st)))
        \<subseteq> set (dispatched (calls st)) \<union> set pre \<union> {a}) \<and>
   fst (sequential_step ex d a st) =
     (case fst (executeActionWithRetry ex a d 1 (world st) (calls st)) of
        Inr v \<Rightarrow> onSuccess a = Some SuccessStop
      | Inl e \<Rightarrow> onError a = Some ErrorStop)"
proof (intro conjI impI)
  assume h: "\<not> loop_breaks ex d pre st \<and> fst (sequential_step ex d a (sequential_loop ex d pre st))"
  have split: "sequential_loop ex d (pre @ xs) st = sequential_loop ex d xs (sequential_loop ex d pre st)"
    for xs using h by (subst sequential_loop_append) simp
  have at_a: "sequential_loop ex d (a # xs) (sequential_loop ex d pre st)
      = snd (sequential_step ex d a (sequential_loop ex d pre st))" for xs
    using h by (intro sequential_loop_break_at_head) simp
  show eq: "sequential_loop ex d (pre @ a # post) st
        = snd (sequential_step ex d a (sequential_loop ex d pre st))"
    by (simp only: split at_a)
  have "sequential_loop ex d (pre @ [a]) st = snd (sequential_step ex d a (sequential_loop ex d pre st))"
    by (simp only: split at_a)
  with eq have "sequential_loop ex d (pre @ a # post) st = sequential_loop ex d (pre @ [a]) st" by simp
  then show "set (dispatched (calls (sequential_loop ex d (pre @ a # post) st)))
        \<subseteq> set (dispatched (calls st)) \<union> set pre \<union> {a}"
    using sequential_loop_dispatched [of ex d "pre @ [a]" st] by auto
next
  show "fst (sequential_step ex d a st) =
     (case fst (executeActionWithRetry ex a d 1 (world st) (calls st)) of
        Inr v \<Rightarrow> onSuccess a = Some SuccessStop
      | Inl e \<Rightarrow> onError a = Some ErrorStop)"
    by (cases rule: sequential_step_cases [of ex a d st]) simp_all
qed




lemmas orchestrator_eval =
  executeActions_def enabledActions_def evaluateCondition_def sequential_step_def
  parallel_run_def executeActionWithRetry.simps maxAttempts_def success_result_def
  failure_result_def plain_action_def retry_action_def fails_first_def fails_for_def
  start_state_def no_data_def Let_def

theorem sequential_stop_witness:
  "\<not> loop_breaks (fails_for ''A'') no_data [] (start_state 0) \<and>
   fst (sequential_step (fails_for ''A'') no_data stop_on_error (start_state 0)) \<and>
   sequential_loop (fails_for ''A'') no_data [stop_on_error, plain_action ''B'' 2] (start_state 0)
     = \<lparr> results = [failure_result stop_on_error ''refused''],
         counts = \<lparr> successful = 0, failed = 1, skipped = 0 \<rparr>,
         world = 1, calls = [Dispatch stop_on_error] \<rparr> \<and>
   fst (sequential_step (fails_for ''nobody'') no_data stop_on_success (start_state 0)) \<and>
   sequential_loop (fails_for ''nobody'') no_data [stop_on_success, plain_action ''B'' 2]
       (start_state 0)
     = \<lparr> results = [success_result stop_on_success ''ok''],
         counts = \<lparr> successful = 1, failed = 0, skipped = 0 \<rparr>,
         world = 1, calls = [Dispatch stop_on_success] \<rparr>"
  using sequential_stop [of "fails_for ''A''" no_data "[]" "start_state 0" stop_on_error
      "[plain_action ''B'' 2]"]
    sequential_stop [of "fails_for ''nobody''" no_data "[]" "start_state 0" stop_on_success
      "[plain_action ''B'' 2]"]
  by (simp add: sequential_step_def executeActionWithRetry.simps maxAttempts_def
      success_result_def failure_result_def plain_action_def fails_for_def start_state_def
      no_data_def stop_on_error_def stop_on_success_def Let_def)

lemma retry_policy_general:
  "(onError a = Some ErrorRetry \<and> retryAttempts a = Some n \<and> 1 \<le> n \<longrightarrow>
      (\<exists>k. 1 \<le> k \<and> int k \<le> n \<and>
         dispatched (calls (snd (sequential_step ex d a st)))
           = dispatched (calls st) @ replicate k a \<and>
         delays (calls (snd (sequential_step ex d a st)))
           = delays (calls st) @ map backoff [1 ..< k] \<and>
         length (results (snd (sequential_step ex d a st))) = length (results st) + 1 \<and>
         (if r_success (last (results (snd (sequential_step ex d a st))))
          then successful (counts (snd (sequential_step ex d a st))) = successful (counts st) + 1 \<and>
               failed (counts (snd (sequential_step ex d a st))) = failed (counts st)
          else int k = n \<and>
               successful (counts (snd (sequential_step ex d a st))) = successful (counts st) \<and>
               failed (counts (snd (sequential_step ex d a st))) = failed (counts st) + 1)))"
proof (intro impI)
  assume h: "onError a = Some ErrorRetry \<and> retryAttempts a = Some n \<and> 1 \<le> n"
  then have mx: "maxAttempts a = n" by (auto simp: maxAttempts_def)
  show "\<exists>k. 1 \<le> k \<and> int k \<le> n \<and>
         dispatched (calls (snd (sequential_step ex d a st)))
           = dispatched (calls st) @ replicate k a \<and>
         delays (calls (snd (sequential_step ex d a st)))
           = delays (calls st) @ map backoff [1 ..< k] \<and>
         length (results (snd (sequential_step ex d a st))) = length (results st) + 1 \<and>
         (if r_success (last (results (snd (sequential_step ex d a st))))
          then successful (counts (snd (sequential_step ex d a st))) = successful (counts st) + 1 \<and>
               failed (counts (snd (sequential_step ex d a st))) = failed (counts st)
          else int k = n \<and>
               successful (counts (snd (sequential_step ex d a st))) = successful (counts st) \<and>
               failed (counts (snd (sequential_step ex d a st))) = failed (counts st) + 1)"
  proof (cases rule: sequential_step_cases [of ex a d st])
    case (ok v w' log')
    from retry_log [OF _ _ ok(1)] h mx obtain k where
      "1 \<le> k" "int (1 + k - 1) \<le> n" "dispatched log' = dispatched (calls st) @ replicate k a"
      "delays log' = delays (calls st) @ map backoff [1 ..< 1 + k - 1]"
      by auto
    then show ?thesis using ok(2)
      by (intro exI [of _ k]) (simp add: success_result_def)
  next
    case (err e w' log')
    from retry_log [OF _ _ err(1)] h mx obtain k where
      "1 \<le> k" "int (1 + k - 1) \<le> n" "dispatched log' = dispatched (calls st) @ replicate k a"
      "delays log' = delays (calls st) @ map backoff [1 ..< 1 + k - 1]"
      "int (1 + k - 1) = n"
      by auto
    then show ?thesis using err(2)
      by (intro exI [of _ k]) (simp add: failure_result_def)
  qed
qed

lemma retry_scenario:
  "executeActions age_host (fails_first 2)
     \<lparr> actions = [retry_action], executeInParallel = False \<rparr> Map.empty [] 0
   = \<lparr> success = True,
       out_results = [success_result retry_action ''ok''],
       out_summary = \<lparr> successful = 1, failed = 0, skipped = 0 \<rparr>,
       out_world = 3,
       out_calls = [Dispatch retry_action, Delay 2000, Dispatch retry_action, Delay 4000,
                    Dispatch retry_action] \<rparr>"
  by (simp add: orchestrator_eval)

lemma world_after_shift:
  "world_after ex a d (snd (ex a d w)) i = world_after ex a d w (Suc i)"
  by (induction i) simp_all

lemma retry_first_success:
  assumes "onError a = Some ErrorRetry"
    and "int (m + j) \<le> maxAttempts a"
    and "\<forall>i<j. isl (fst (ex a d (world_after ex a d w i)))"
    and "fst (ex a d (world_after ex a d w j)) = Inr v"
  shows "executeActionWithRetry ex a d m w log =
     (Inr v, world_after ex a d w (Suc j),
      log @ concat (map (\<lambda>i. [Dispatch a, Delay (backoff i)]) [m ..< m + j]) @ [Dispatch a])"
  using assms(2-4)
proof (induction j arbitrary: m w log)
  case 0
  then show ?case by (simp add: retry_unfold_success)
next
  case (Suc j)
  from Suc.prems(2) have "isl (fst (ex a d (world_after ex a d w 0)))" by blast
  then obtain e where e: "fst (ex a d w) = Inl e" by (cases "fst (ex a d w)") auto
  have lt: "int m < maxAttempts a" using Suc.prems(1) by simp
  have again: "executeActionWithRetry ex a d m w log =
      executeActionWithRetry ex a d (m + 1) (snd (ex a d w))
        (log @ [Dispatch a, Delay (2 ^ m * 1000)])"
    using e lt assms(1) by (rule retry_unfold_again)
  have le: "int (m + 1 + j) \<le> maxAttempts a" using Suc.prems(1) by simp
  have fails: "\<forall>i<j. isl (fst (ex a d (world_after ex a d (snd (ex a d w)) i)))"
    using Suc.prems(2) by (auto simp: world_after_shift simp del: world_after.simps)
  have ok: "fst (ex a d (world_after ex a d (snd (ex a d w)) j)) = Inr v"
    using Suc.prems(3) by (simp only: world_after_shift)
  have up: "[m ..< m + Suc j] = m # [m + 1 ..< m + 1 + j]" by (simp add: upt_conv_Cons)
  show ?case
    unfolding again Suc.IH [OF le fails ok] up
    by (simp add: world_after_shift backoff_def del: world_after.simps)
qed

lemma retry_all_fail:
  assumes "onError a = Some ErrorRetry"
    and "int (m + j) = maxAttempts a"
    and "\<forall>i\<le>j. isl (fst (ex a d (world_after ex a d w i)))"
  shows "executeActionWithRetry ex a d m w log =
     (Inl (projl (fst (ex a d (world_after ex a d w j)))), world_after ex a d w (Suc j),
      log @ concat (map (\<lambda>i. [Dispatch a, Delay (backoff i)]) [m ..< m + j]) @ [Dispatch a])"
  using assms(2-3)
proof (induction j arbitrary: m w log)
  case 0
  then have "isl (fst (ex a d w))" by simp
  then obtain e where e: "fst (ex a d w) = Inl e" by (cases "fst (ex a d w)") auto
  have "\<not> (int m < maxAttempts a \<and> onError a = Some ErrorRetry)" using 0 by simp
  with e show ?case by (simp add: retry_unfold_give_up)
next
  case (Suc j)
  from Suc.prems(2) have "isl (fst (ex a d (world_after ex a d w 0)))" by blast
  then obtain e where e: "fst (ex a d w) = Inl e" by (cases "fst (ex a d w)") auto
  have lt: "int m < maxAttempts a" using Suc.prems(1) by simp
  have again: "executeActionWithRetry ex a d m w log =
      executeActionWithRetry ex a d (m + 1) (snd (ex a d w))
        (log @ [Dispatch a, Delay (2 ^ m * 1000)])"
    using e lt assms(1) by (rule retry_unfold_again)
  have eq: "int (m + 1 + j) = maxAttempts a" using Suc.prems(1) by simp
  have fails: "\<forall>i\<le>j. isl (fst (ex a d (world_after ex a d (snd (ex a d w)) i)))"
    using Suc.prems(2) by (auto simp: world_after_shift simp del: world_after.simps)
  have up: "[m ..< m + Suc j] = m # [m + 1 ..< m + 1 + j]" by (simp add: upt_conv_Cons)
  show ?case
    unfolding again Suc.IH [OF eq fails] up
    by (simp add: world_after_shift backoff_def del: world_after.simps)
qed

lemma attempt_log_projections:
  "1 \<le> k \<Longrightarrow> dispatched (attempt_log a k) = replicate k a \<and>
     delays (attempt_log a k) = map backoff [1 ..< k]"
proof (induction k rule: nat_induct_at_least)
  case base
  then show ?case by (simp add: attempt_log_def)
next
  case (Suc k)
  have "attempt_log a (Suc k) =
      concat (map (\<lambda>i. [Dispatch a, Delay (backoff i)]) [1 ..< k]) @
      [Dispatch a, Delay (backoff k), Dispatch a]"
    using Suc.hyps by (simp add: attempt_log_def)
  also have "\<dots> = attempt_log a k @ [Delay (backoff k), Dispatch a]"
    by (simp add: attempt_log_def)
  finally show ?case using Suc
    by (simp add: dispatched_append delays_append replicate_append_same)
qed

lemma retry_every_attempt_fails:
  assumes "onError a = Some ErrorRetry" "retryAttempts a = Some n" "1 \<le> n"
    and "\<forall>i. 1 \<le> i \<and> i \<le> nat n \<longrightarrow> isl (attempt_outcome ex a d (world st) i)"
  shows "sequential_step ex d a st =
     (False,
      st\<lparr> results := results st @
             [failure_result a (projl (attempt_outcome ex a d (world st) (nat n)))],
          counts := (counts st)\<lparr> failed := failed (counts st) + 1 \<rparr>,
          world := world_after ex a d (world st) (nat n),
          calls := calls st @ attempt_log a (nat n) \<rparr>)"
proof -
  obtain j where j: "nat n = Suc j" using assms(3) by (cases "nat n") auto
  have mx: "int (1 + j) = maxAttempts a" using assms(2,3) j by (simp add: maxAttempts_def)
  have fails: "\<forall>i\<le>j. isl (fst (ex a d (world_after ex a d (world st) i)))"
  proof (intro allI impI)
    fix i assume "i \<le> j"
    with assms(4) j have "isl (attempt_outcome ex a d (world st) (Suc i))" by simp
    then show "isl (fst (ex a d (world_after ex a d (world st) i)))"
      by (simp add: attempt_outcome_def)
  qed
  show ?thesis
    unfolding sequential_step_def retry_all_fail [OF assms(1) mx fails] j
    using assms(1) by (simp add: attempt_log_def attempt_outcome_def)
qed

lemma retry_first_attempt_that_succeeds:
  assumes "onError a = Some ErrorRetry" "retryAttempts a = Some n"
    and "1 \<le> k" "int k \<le> n"
    and "\<forall>i. 1 \<le> i \<and> i < k \<longrightarrow> isl (attempt_outcome ex a d (world st) i)"
    and "attempt_outcome ex a d (world st) k = Inr v"
  shows "sequential_step ex d a st =
     (onSuccess a = Some SuccessStop,
      st\<lparr> results := results st @ [success_result a v],
          counts := (counts st)\<lparr> successful := successful (counts st) + 1 \<rparr>,
          world := world_after ex a d (world st) k,
          calls := calls st @ attempt_log a k \<rparr>)"
proof -
  obtain j where j: "k = Suc j" using assms(3) by (cases k) auto
  have mx: "int (1 + j) \<le> maxAttempts a" using assms(2,4) j by (auto simp: maxAttempts_def)
  have fails: "\<forall>i<j. isl (fst (ex a d (world_after ex a d (world st) i)))"
  proof (intro allI impI)
    fix i assume "i < j"
    with assms(5) j have "isl (attempt_outcome ex a d (world st) (Suc i))" by simp
    then show "isl (fst (ex a d (world_after ex a d (world st) i)))"
      by (simp add: attempt_outcome_def)
  qed
  have ok: "fst (ex a d (world_after ex a d (world st) j)) = Inr v"
    using assms(6) j by (simp add: attempt_outcome_def)
  show ?thesis
    unfolding sequential_step_def retry_first_success [OF assms(1) mx fails ok] j
    by (simp add: attempt_log_def)
qed

lemma world_after_fails_first: "world_after (fails_first n) a d w i = w + i"
  by (induction i) (simp_all add: fails_first_def)

text \<open>
  C7. In the sequential loop, for an action with \<open>onError = retry\<close> and
  \<open>retryAttempts = n\<close> (\<open>n \<ge> 1\<close>):
  when each of the attempts 1 to \<open>n\<close> fails, the pass makes exactly these \<open>n\<close>
  attempts and records one failure, with the error of the last attempt; when attempt
  \<open>j \<le> n\<close> is the first that succeeds, the pass makes exactly \<open>j\<close> attempts and
  records one success and no failure. In both cases the log is a dispatch followed, for
  each further attempt, by a wait and the next dispatch, the wait after attempt \<open>i\<close>
  being \<open>2^i\<close> seconds; so \<open>k\<close> attempts make \<open>k\<close> dispatches and the waits
  \<open>2^1, \<dots>, 2^(k-1)\<close>. In every case at most \<open>n\<close> attempts are made and one result
  is added. With \<open>retryAttempts = 3\<close> and a dispatcher that fails twice and then succeeds,
  the run succeeds after three dispatches and two waits, with no failure counted.
\<close>

theorem retry_policy:
  "(onError a = Some ErrorRetry \<and> retryAttempts a = Some n \<and> 1 \<le> n \<longrightarrow>
      (\<exists>k. 1 \<le> k \<and> int k \<le> n \<and>
         dispatched (calls (snd (sequential_step ex d a st)))
           = dispatched (calls st) @ replicate k a \<and>
         delays (calls (snd (sequential_step ex d a st)))
           = delays (calls st) @ map backoff [1 ..< k] \<and>
         length (results (snd (sequential_step ex d a st))) = length (results st) + 1 \<and>
         (if r_success (last (results (snd (sequential_step ex d a st))))
          then successful (counts (snd (sequential_step ex d a st))) = successful (counts st) + 1 \<and>
               failed (counts (snd (sequential_step ex d a st))) = failed (counts st)
          else int k = n \<and>
               successful (counts (snd (sequential_step ex d a st))) = successful (counts st) \<and>
               failed (counts (snd (sequential_step ex d a st))) = failed (counts st) + 1))) \<and>
   (onError a = Some ErrorRetry \<and> retryAttempts a = Some n \<and> 1 \<le> n \<and>
      (\<forall>i. 1 \<le> i \<and> i \<le> nat n \<longrightarrow> isl (attempt_outcome ex a d (world st) i)) \<longrightarrow>
      sequential_step ex d a st =
        (False,
         st\<lparr> results := results st @
                [failure_result a (projl (attempt_outcome ex a d (world st) (nat n)))],
             counts := (counts st)\<lparr> failed := failed (counts st) + 1 \<rparr>,
             world := world_after ex a d (world st) (nat n),
             calls := calls st @ attempt_log a (nat n) \<rparr>)) \<and>
   (onError a = Some ErrorRetry \<and> retryAttempts a = Some n \<and> 1 \<le> j \<and> int j \<le> n \<and>
      (\<forall>i. 1 \<le> i \<and> i < j \<longrightarrow> isl (attempt_outcome ex a d (world st) i)) \<and>
      attempt_outcome ex a d (world st) j = Inr v \<longrightarrow>
      sequential_step ex d a st =
        (onSuccess a = Some SuccessStop,
         st\<lparr> results := results st @ [success_result a v],
             counts := (counts st)\<lparr> successful := successful (counts st) + 1 \<rparr>,
             world := world_after ex a d (world st) j,
             calls := calls st @ attempt_log a j \<rparr>)) \<and>
   (1 \<le> j \<longrightarrow> dispatched (attempt_log a j) = replicate j a \<and>
      delays (attempt_log a j) = map backoff [1 ..< j]) \<and>
   executeActions age_host (fails_first 2)
     \<lparr> actions = [retry_action], executeInParallel = False \<rparr> Map.empty [] 0
   = \<lparr> success = True,
       out_results = [success_result retry_action ''ok''],
       out_summary = \<lparr> successful = 1, failed = 0, skipped = 0 \<rparr>,
       out_world = 3,
       out_calls = [Dispatch retry_action, Delay 2000, Dispatch retry_action, Delay 4000,
                    Dispatch retry_action] \<rparr>"
proof (intro conjI impI)
  assume "onError a = Some ErrorRetry \<and> retryAttempts a = Some n \<and> 1 \<le> n"
  then show "\<exists>k. 1 \<le> k \<and> int k \<le> n \<and>
         dispatched (calls (snd (sequential_step ex d a st)))
           = dispatched (calls st) @ replicate k a \<and>
         delays (calls (snd (sequential_step ex d a st)))
           = delays (calls st) @ map backoff [1 ..< k] \<and>
         length (results (snd (sequential_step ex d a st))) = length (results st) + 1 \<and>
         (if r_success (last (results (snd (sequential_step ex d a st))))
          then successful (counts (snd (sequential_step ex d a st))) = successful (counts st) + 1 \<and>
               failed (counts (snd (sequential_step ex d a st))) = failed (counts st)
          else int k = n \<and>
               successful (counts (snd (sequential_step ex d a st))) = successful (counts st) \<and>
               failed (counts (snd (sequential_step ex d a st))) = failed (counts st) + 1)"
    using retry_policy_general [of a n ex d st] by blast
next
  assume "onError a = Some ErrorRetry \<and> retryAttempts a = Some n \<and> 1 \<le> n \<and>
      (\<forall>i. 1 \<le> i \<and> i \<le> nat n \<longrightarrow> isl (attempt_outcome ex a d (world st) i))"
  then show "sequential_step ex d a st =
        (False,
         st\<lparr> results := results st @
                [failure_result a (projl (attempt_outcome ex a d (world st) (nat n)))],
             counts := (counts st)\<lparr> failed := failed (counts st) + 1 \<rparr>,
             world := world_after ex a d (world st) (nat n),
             calls := calls st @ attempt_log a (nat n) \<rparr>)"
    by (intro retry_every_attempt_fails) simp_all
next
  assume "onError a = Some ErrorRetry \<and> retryAttempts a = Some n \<and> 1 \<le> j \<and> int j \<le> n \<and>
      (\<forall>i. 1 \<le> i \<and> i < j \<longrightarrow> isl (attempt_outcome ex a d (world st) i)) \<and>
      attempt_outcome ex a d (world st) j = Inr v"
  then show "sequential_step ex d a st =
        (onSuccess a = Some SuccessStop,
         st\<lparr> results := results st @ [success_result a v],
             counts := (counts st)\<lparr> successful := successful (counts st) + 1 \<rparr>,
             world := world_after ex a d (world st) j,
             calls := calls st @ attempt_log a j \<rparr>)"
    by (intro retry_first_attempt_that_succeeds [where n = n]) simp_all
next
  assume "1 \<le> j"
  then show "dispatched (attempt_log a j) = replicate j a"
    and "delays (attempt_log a j) = map backoff [1 ..< j]"
    by (simp_all add: attempt_log_projections)
next
  show "executeActions age_host (fails_first 2)
     \<lparr> actions = [retry_action], executeInParallel = False \<rparr> Map.empty [] 0
   = \<lparr> success = True,
       out_results = [success_result retry_action ''ok''],
       out_summary = \<lparr> successful = 1, failed = 0, skipped = 0 \<rparr>,
       out_world = 3,
       out_calls = [Dispatch retry_action, Delay 2000, Dispatch retry_action, Delay 4000,
                    Dispatch retry_action] \<rparr>"
    by (rule retry_scenario)
qed

theorem retry_policy_witness:
  "onError retry_action = Some ErrorRetry \<and> retryAttempts retry_action = Some 3 \<and>
   (1::int) \<le> 3 \<and>
   isl (attempt_outcome (fails_first 2) retry_action no_data 0 1) \<and>
   isl (attempt_outcome (fails_first 2) retry_action no_data 0 2) \<and>
   attempt_outcome (fails_first 2) retry_action no_data 0 3 = Inr ''ok'' \<and>
   sequential_step (fails_first 2) no_data retry_action (start_state 0) =
     (False,
      \<lparr> results = [success_result retry_action ''ok''],
        counts = \<lparr> successful = 1, failed = 0, skipped = 0 \<rparr>,
        world = 3,
        calls = [Dispatch retry_action, Delay 2000, Dispatch retry_action, Delay 4000,
                 Dispatch retry_action] \<rparr>) \<and>
   isl (attempt_outcome (fails_first 5) retry_action no_data 0 1) \<and>
   isl (attempt_outcome (fails_first 5) retry_action no_data 0 2) \<and>
   isl (attempt_outcome (fails_first 5) retry_action no_data 0 3) \<and>
   sequential_step (fails_first 5) no_data retry_action (start_state 0) =
     (False,
      \<lparr> results = [failure_result retry_action ''unreachable''],
        counts = \<lparr> successful = 0, failed = 1, skipped = 0 \<rparr>,
        world = 3,
        calls = [Dispatch retry_action, Delay 2000, Dispatch retry_action, Delay 4000,
                 Dispatch retry_action] \<rparr>) \<and>
   dispatched (attempt_log retry_action 3) = [retry_action, retry_action, retry_action] \<and>
   delays (attempt_log retry_action 3) = [backoff 1, backoff 2]"
proof -
  let ?s = "start_state 0 :: (nat, string) run_state"
  have given: "onError retry_action = Some ErrorRetry" "retryAttempts retry_action = Some 3"
    "onSuccess retry_action = None"
    by (simp_all add: retry_action_def plain_action_def)
  have out2: "attempt_outcome (fails_first 2) retry_action no_data 0 i
      = (if i \<le> 2 then Inl ''unreachable'' else Inr ''ok'')" for i
    by (auto simp: attempt_outcome_def world_after_fails_first fails_first_def)
  have out5: "attempt_outcome (fails_first 5) retry_action no_data 0 i
      = (if i \<le> 5 then Inl ''unreachable'' else Inr ''ok'')" for i
    by (auto simp: attempt_outcome_def world_after_fails_first fails_first_def)
  have log3: "attempt_log retry_action 3
      = [Dispatch retry_action, Delay 2000, Dispatch retry_action, Delay 4000,
         Dispatch retry_action]"
    by (simp add: attempt_log_def backoff_def upt_rec)
  have st0: "world ?s = 0" by (simp add: start_state_def)
  have first2: "\<forall>i. 1 \<le> i \<and> i < 3 \<longrightarrow>
      isl (attempt_outcome (fails_first 2) retry_action no_data (world ?s) i)"
    by (simp add: st0 out2)
  have third: "attempt_outcome (fails_first 2) retry_action no_data (world ?s) 3 = Inr ''ok''"
    by (simp add: st0 out2)
  have all5: "\<forall>i. 1 \<le> i \<and> i \<le> nat 3 \<longrightarrow>
      isl (attempt_outcome (fails_first 5) retry_action no_data (world ?s) i)"
    by (simp add: st0 out5)
  have ar: "(1::nat) \<le> 3" "int 3 \<le> (3::int)" "(1::int) \<le> 3" by simp_all
  note at2 = retry_policy [where a = retry_action and n = 3 and ex = "fails_first 2"
      and d = no_data and st = ?s and j = 3 and v = "''ok''"]
  note at5 = retry_policy [where a = retry_action and n = 3 and ex = "fails_first 5"
      and d = no_data and st = ?s and j = 3 and v = "''ok''"]
  have succeeds: "sequential_step (fails_first 2) no_data retry_action ?s =
      (onSuccess retry_action = Some SuccessStop,
       ?s\<lparr> results := results ?s @ [success_result retry_action ''ok''],
          counts := (counts ?s)\<lparr> successful := successful (counts ?s) + 1 \<rparr>,
          world := world_after (fails_first 2) retry_action no_data (world ?s) 3,
          calls := calls ?s @ attempt_log retry_action 3 \<rparr>)"
    by (rule at2 [THEN conjunct2, THEN conjunct2, THEN conjunct1, THEN mp])
       (intro conjI, (rule given first2 third ar)+)
  have proj: "dispatched (attempt_log retry_action 3) = replicate 3 retry_action \<and>
      delays (attempt_log retry_action 3) = map backoff [1 ..< 3]"
    by (rule at2 [THEN conjunct2, THEN conjunct2, THEN conjunct2, THEN conjunct1, THEN mp])
       (rule ar)
  have fails: "sequential_step (fails_first 5) no_data retry_action ?s =
      (False,
       ?s\<lparr> results := results ?s @
            [failure_result retry_action
               (projl (attempt_outcome (fails_first 5) retry_action no_data (world ?s) (nat 3)))],
          counts := (counts ?s)\<lparr> failed := failed (counts ?s) + 1 \<rparr>,
          world := world_after (fails_first 5) retry_action no_data (world ?s) (nat 3),
          calls := calls ?s @ attempt_log retry_action (nat 3) \<rparr>)"
    by (rule at5 [THEN conjunct2, THEN conjunct1, THEN mp])
       (intro conjI, (rule given all5 ar)+)
  have three: "replicate 3 retry_action = [retry_action, retry_action, retry_action]"
    "map backoff [1 ..< 3] = [backoff 1, backoff 2]"
    by (simp_all add: numeral_3_eq_3 upt_rec numeral_2_eq_2)
  show ?thesis
    unfolding succeeds fails
    by (simp add: given out2 out5 log3 proj three world_after_fails_first start_state_def
        backoff_def)
qed





text \<open>
  The actions that run are the enabled actions whose condition holds, in ascending order
  of \<open>order\<close>, and actions of equal \<open>order\<close> keep their order of declaration. The
  \<open>skipped\<close> counter stays at its initial value in every run.
\<close>

lemma enabledActions_pipeline:
  "set (enabledActions host cfg fd) =
     {a \<in> set (actions cfg). enabled a \<and> evaluateCondition host (condition a) fd} \<and>
   sorted (map action_order (enabledActions host cfg fd)) \<and>
   filter (\<lambda>a. action_order a = k) (enabledActions host cfg fd) =
     filter (\<lambda>a. action_order a = k \<and> enabled a \<and> evaluateCondition host (condition a) fd)
       (actions cfg)"
proof (intro conjI)
  show "set (enabledActions host cfg fd) =
     {a \<in> set (actions cfg). enabled a \<and> evaluateCondition host (condition a) fd}"
    by (auto simp: enabledActions_def)
  show "sorted (map action_order (enabledActions host cfg fd))"
    unfolding enabledActions_def by (intro sorted_filter) simp
  have "filter (\<lambda>a. action_order a = k) (enabledActions host cfg fd) =
      filter (\<lambda>a. evaluateCondition host (condition a) fd)
        (filter (\<lambda>a. action_order a = k) (sort_key action_order (filter enabled (actions cfg))))"
    unfolding enabledActions_def by (simp add: conj_commute)
  also have "\<dots> = filter (\<lambda>a. evaluateCondition host (condition a) fd)
        (filter (\<lambda>a. action_order a = k) (filter enabled (actions cfg)))"
    by (simp only: sort_key_stable)
  also have "\<dots> = filter (\<lambda>a. action_order a = k \<and> enabled a \<and> evaluateCondition host (condition a) fd)
       (actions cfg)"
    by (simp add: conj_commute conj_left_commute)
  finally show "filter (\<lambda>a. action_order a = k) (enabledActions host cfg fd) =
     filter (\<lambda>a. action_order a = k \<and> enabled a \<and> evaluateCondition host (condition a) fd)
       (actions cfg)" .
qed

lemma sequential_step_skipped:
  "skipped (counts (snd (sequential_step ex d a st))) = skipped (counts st)"
  by (cases rule: sequential_step_cases [of ex a d st]) simp_all

lemma sequential_loop_skipped:
  "skipped (counts (sequential_loop ex d acts st)) = skipped (counts st)"
proof (induction acts arbitrary: st)
  case Nil
  then show ?case by simp
next
  case (Cons a acts)
  from sequential_step_skipped [of ex d a st] Cons
  show ?case by (auto split: prod.splits)
qed

lemma skipped_never_counted:
  "skipped (out_summary (executeActions host ex cfg fd nav w)) = 0"
  by (simp add: executeActions_def Let_def sequential_loop_skipped parallel_run_def
      split: prod.splits)

text \<open>
  C4, at an input where the condition filter removes the only action. The action is
  enabled and its condition evaluates to false over the answers; it is not dispatched and
  not counted as failed, and the \<open>skipped\<close> counter of the summary, which starts at 0 and
  which no path of \<open>executeActions\<close> increments, is 0 where the specification counts the action as skipped.
\<close>

theorem condition_filtered_not_counted:
  "enabled adults_only \<and>
   \<not> evaluateCondition age_host (condition adults_only) [''age'' \<mapsto> ANum 16] \<and>
   executeActions age_host (fails_first 0) minors_skipped [''age'' \<mapsto> ANum 16] [] 0
   = \<lparr> success = False, out_results = [],
       out_summary = \<lparr> successful = 0, failed = 0, skipped = 0 \<rparr>,
       out_world = 0, out_calls = [] \<rparr>"
  by (simp add: orchestrator_eval minors_skipped_def adults_only_def age_host_def trim_eval)

text \<open>
  C8, at an input where the parallel branch gives up an action that asks for retries.
  The action has \<open>onError = retry\<close> and \<open>retryAttempts = 3\<close>, and the dispatcher fails
  on its first call only. The parallel branch calls \<open>executeAction\<close>, not
  \<open>executeActionWithRetry\<close>: it dispatches once and records a failure with two attempts
  left. The sequential branch, on the same input, waits, dispatches again and succeeds.
\<close>

theorem parallel_skips_retry:
  "executeActions age_host (fails_first 1)
     \<lparr> actions = [retry_action], executeInParallel = True \<rparr> Map.empty [] 0
   = \<lparr> success = False,
       out_results = [failure_result retry_action ''unreachable''],
       out_summary = \<lparr> successful = 0, failed = 1, skipped = 0 \<rparr>,
       out_world = 1,
       out_calls = [Dispatch retry_action] \<rparr> \<and>
   executeActions age_host (fails_first 1)
     \<lparr> actions = [retry_action], executeInParallel = False \<rparr> Map.empty [] 0
   = \<lparr> success = True,
       out_results = [success_result retry_action ''ok''],
       out_summary = \<lparr> successful = 1, failed = 0, skipped = 0 \<rparr>,
       out_world = 2,
       out_calls = [Dispatch retry_action, Delay 2000, Dispatch retry_action] \<rparr>"
  by (simp add: orchestrator_eval)

section \<open>Properties of the condition evaluation\<close>

text \<open>
  C9. \<open>evaluateCondition\<close> returns true when the condition is absent, empty or blank,
  and when the host engine throws on the expression, as it does with a \<open>SyntaxError\<close>
  on text that does not parse: an enabled action whose condition is broken stays among
  the actions that run.
\<close>

theorem evaluateCondition_fails_open:
  "evaluateCondition host None fd \<and>
   (c = [] \<or> trim c = [] \<longrightarrow> evaluateCondition host (Some c) fd) \<and>
   (host (''return '' @ c) fd = Inl e \<longrightarrow> evaluateCondition host (Some c) fd) \<and>
   (a \<in> set (actions cfg) \<and> enabled a \<and> condition a = Some c \<and>
      host (''return '' @ c) fd = Inl e \<longrightarrow> a \<in> set (enabledActions host cfg fd))"
  by (auto simp: evaluateCondition_def enabledActions_def)

theorem evaluateCondition_fails_open_witness:
  "trim ''  '' = [] \<and> evaluateCondition age_host (Some ''  '') Map.empty \<and>
   age_host (''return '' @ ''formData.age >='') Map.empty = Inl ''SyntaxError'' \<and>
   evaluateCondition age_host (Some ''formData.age >='') Map.empty \<and>
   broken_condition \<in> set (actions \<lparr> actions = [broken_condition], executeInParallel = False \<rparr>) \<and>
   enabled broken_condition \<and>
   condition broken_condition = Some ''formData.age >='' \<and>
   broken_condition \<in> set (enabledActions age_host
     \<lparr> actions = [broken_condition], executeInParallel = False \<rparr> Map.empty)"
  using evaluateCondition_fails_open [of age_host Map.empty "''  ''"]
    evaluateCondition_fails_open [of age_host Map.empty "''formData.age >=''" "''SyntaxError''"
      broken_condition "\<lparr> actions = [broken_condition], executeInParallel = False \<rparr>"]
  by (simp add: trim_eval age_host_def broken_condition_def plain_action_def)

text \<open>
  C10, as the code has it. For every expression that is not empty or blank, whatever its
  text, \<open>evaluateCondition\<close> hands the text \<open>return \<close> followed by the expression to
  the host engine as the body of a function of \<open>formData\<close>, runs it on the answers, and
  returns the engine's value coerced by \<open>Boolean\<close>, or true when the engine throws: the
  result is what the engine makes of the expression as code. So two hosts (or one host at
  two moments) give the same result whenever they return the same outcome for that body
  on the answers, and the result does not depend on the host when the expression is
  absent, empty or blank.
\<close>

theorem evaluateCondition_host_relative:
  "(c \<noteq> [] \<and> trim c \<noteq> [] \<longrightarrow>
      evaluateCondition host1 (Some c) fd =
        (case host1 (''return '' @ c) fd of Inl e \<Rightarrow> True | Inr v \<Rightarrow> Boolean v)) \<and>
   (host1 (''return '' @ c) fd = host2 (''return '' @ c) fd \<longrightarrow>
      evaluateCondition host1 (Some c) fd = evaluateCondition host2 (Some c) fd) \<and>
   (c = [] \<or> trim c = [] \<longrightarrow>
      evaluateCondition host1 (Some c) fd = evaluateCondition host2 (Some c) fd) \<and>
   evaluateCondition host1 None fd = evaluateCondition host2 None fd"
  by (auto simp: evaluateCondition_def)

theorem evaluateCondition_host_relative_witness:
  "''Date.now() % 2 === 0'' \<noteq> [] \<and> trim ''Date.now() % 2 === 0'' \<noteq> [] \<and>
   clock_host 0 (''return '' @ ''Date.now() % 2 === 0'') Map.empty = Inr (JBool True) \<and>
   evaluateCondition (clock_host 0) (Some ''Date.now() % 2 === 0'') Map.empty \<and>
   clock_host 0 (''return '' @ ''Date.now() % 2 === 0'') Map.empty
     = clock_host 2 (''return '' @ ''Date.now() % 2 === 0'') Map.empty \<and>
   evaluateCondition (clock_host 0) (Some ''Date.now() % 2 === 0'') Map.empty
     = evaluateCondition (clock_host 2) (Some ''Date.now() % 2 === 0'') Map.empty \<and>
   trim '' '' = [] \<and>
   evaluateCondition (clock_host 0) (Some '' '') Map.empty
     = evaluateCondition (clock_host 1) (Some '' '') Map.empty"
proof -
  let ?c = "''Date.now() % 2 === 0''"
  note at_clock = evaluateCondition_host_relative [of ?c "clock_host 0" Map.empty "clock_host 2"]
  note at_blank = evaluateCondition_host_relative [of "'' ''" "clock_host 0" Map.empty "clock_host 1"]
  have filled: "?c \<noteq> []" "trim ?c \<noteq> []" "trim '' '' = []"
    by (simp_all add: trim_eval)
  have answer: "clock_host 0 (''return '' @ ?c) Map.empty = Inr (JBool True)"
    and same: "clock_host 0 (''return '' @ ?c) Map.empty
      = clock_host 2 (''return '' @ ?c) Map.empty"
    by (simp_all add: clock_host_def)
  have "evaluateCondition (clock_host 0) (Some ?c) Map.empty =
      (case clock_host 0 (''return '' @ ?c) Map.empty of
         Inl e \<Rightarrow> True | Inr v \<Rightarrow> Boolean v)"
    by (rule at_clock [THEN conjunct1, THEN mp]) (intro conjI filled)
  then have holds: "evaluateCondition (clock_host 0) (Some ?c) Map.empty"
    by (simp add: clock_host_def)
  have alike: "evaluateCondition (clock_host 0) (Some ?c) Map.empty
      = evaluateCondition (clock_host 2) (Some ?c) Map.empty"
    by (rule at_clock [THEN conjunct2, THEN conjunct1, THEN mp]) (rule same)
  have blank: "evaluateCondition (clock_host 0) (Some '' '') Map.empty
      = evaluateCondition (clock_host 1) (Some '' '') Map.empty"
    by (rule at_blank [THEN conjunct2, THEN conjunct2, THEN conjunct1, THEN mp])
       (rule disjI2, rule filled)
  show ?thesis
    by (intro conjI filled answer holds same alike blank)
qed

text \<open>
  That the result depends on the expression and the answers alone fails for an
  expression that reads the clock: the same expression over the same answers is true at
  one reading and false at the next.
\<close>

theorem evaluateCondition_host_counterexample:
  "evaluateCondition (clock_host 0) (Some ''Date.now() % 2 === 0'') Map.empty \<and>
   \<not> evaluateCondition (clock_host 1) (Some ''Date.now() % 2 === 0'') Map.empty"
  by (simp add: evaluateCondition_def clock_host_def trim_eval)

end
